theory Spec2Isabelle
  imports Main "HOL-Library.Word"
begin

unbundle bit_operations_syntax

section \<open>Colour conversion (cam\_driver.c)\<close>

type_synonym byte = "8 word"

text \<open>
  The macros \<open>OLED_WIDTH\<close> and \<open>OLED_HEIGHT\<close> expand to \<open>DISPLAY_WIDTH\<close> and
  \<open>DISPLAY_HEIGHT\<close> of cam\_driver.h, both 128.
\<close>

definition OLED_WIDTH :: nat where
  "OLED_WIDTH = 128"

definition OLED_HEIGHT :: nat where
  "OLED_HEIGHT = 128"

text \<open>
  The clamping expression \<open>(t < 0) ? 0 : ((t > 255) ? 255 : t)\<close> of \<open>yuv420_to_rgb\<close>,
  on the C \<open>int\<close> value before it is stored into a \<open>uint8_t\<close>.
\<close>

definition clamp8 :: "int \<Rightarrow> int" where
  "clamp8 t = (if t < 0 then 0 else if t > 255 then 255 else t)"

text \<open>
  The three \<open>int\<close> temporaries of \<open>yuv420_to_rgb\<close>. The \<open>uint8_t\<close> arguments are
  promoted to \<open>int\<close>; \<open>>> 8\<close> on a negative \<open>int\<close> is the arithmetic shift, which is
  \<^term>\<open>drop_bit 8\<close> on \<^typ>\<open>int\<close> (rounding towards minus infinity).
\<close>

definition r_temp :: "byte \<Rightarrow> byte \<Rightarrow> byte \<Rightarrow> int" where
  "r_temp y u v =
     (let c = uint y - 16; e = uint v - 128
      in drop_bit 8 (298 * c + 409 * e + 128))"

definition g_temp :: "byte \<Rightarrow> byte \<Rightarrow> byte \<Rightarrow> int" where
  "g_temp y u v =
     (let c = uint y - 16; d = uint u - 128; e = uint v - 128
      in drop_bit 8 (298 * c - 100 * d - 208 * e + 128))"

definition b_temp :: "byte \<Rightarrow> byte \<Rightarrow> byte \<Rightarrow> int" where
  "b_temp y u v =
     (let c = uint y - 16; d = uint u - 128
      in drop_bit 8 (298 * c + 516 * d + 128))"

text \<open>
  \<open>yuv420_to_rgb\<close>: the results written through the pointers \<open>r\<close>, \<open>g\<close>, \<open>b\<close> are
  returned as a triple; the store into \<open>uint8_t\<close> is the conversion \<^term>\<open>word_of_int\<close>
  (reduction modulo 256).
\<close>

definition yuv420_to_rgb :: "byte \<Rightarrow> byte \<Rightarrow> byte \<Rightarrow> byte \<times> byte \<times> byte" where
  "yuv420_to_rgb y u v =
     (word_of_int (clamp8 (r_temp y u v)),
      word_of_int (clamp8 (g_temp y u v)),
      word_of_int (clamp8 (b_temp y u v)))"

text \<open>The sums that are shifted, before the shift: they must fit a 32-bit \<open>int\<close>.\<close>

definition sums_yuv :: "byte \<Rightarrow> byte \<Rightarrow> byte \<Rightarrow> int list" where
  "sums_yuv y u v =
     (let c = uint y - 16; d = uint u - 128; e = uint v - 128
      in [298 * c + 409 * e + 128,
          298 * c - 100 * d - 208 * e + 128,
          298 * c + 516 * d + 128])"

section \<open>Frame conversion into the display buffer (cam\_driver.c)\<close>

text \<open>
  The packing expression of \<open>display_camera_frame\<close>,
  \<open>((r & 0xF8) << 8) | ((g & 0xFC) << 3) | (b >> 3)\<close>, stored into a \<open>UWORD\<close> (16 bits).
  The operands are promoted to \<open>int\<close>; the value is below \<open>2 ^ 16\<close>, so computing in
  16 bits loses nothing.
\<close>

definition rgb565 :: "byte \<Rightarrow> byte \<Rightarrow> byte \<Rightarrow> 16 word" where
  "rgb565 r g b =
     push_bit 8 (ucast r AND 0xF8) OR push_bit 3 (ucast g AND 0xFC) OR drop_bit 3 (ucast b)"

text \<open>
  The body of the inner loop of \<open>display_camera_frame\<close> for the pixel \<open>(row, col)\<close>:
  \<open>fr\<close> is the frame (\<open>y_plane\<close> at offset 0, \<open>u_plane\<close> at \<open>OLED_WIDTH * OLED_HEIGHT\<close>,
  \<open>v_plane\<close> a further \<open>OLED_WIDTH * OLED_HEIGHT / 4\<close> on), \<open>buf\<close> the display buffer.
  \<open>pos\<close> is a \<open>UWORD\<close>: the product is reduced modulo \<open>2 ^ 16\<close>.
\<close>

definition pixel_color :: "byte list \<Rightarrow> nat \<Rightarrow> nat \<Rightarrow> 16 word" where
  "pixel_color fr row col =
     (let y_index = row * OLED_WIDTH + col;
          uv_row = row div 2;
          uv_col = col div 2;
          uv_index = uv_row * (OLED_WIDTH div 2) + uv_col;
          y_val = fr ! y_index;
          u_val = fr ! (OLED_WIDTH * OLED_HEIGHT + uv_index);
          v_val = fr ! (OLED_WIDTH * OLED_HEIGHT + OLED_WIDTH * OLED_HEIGHT div 4 + uv_index)
      in case yuv420_to_rgb y_val u_val v_val of (r, g, b) \<Rightarrow> rgb565 r g b)"

definition paint_pixel :: "byte list \<Rightarrow> byte list \<Rightarrow> nat \<Rightarrow> nat \<Rightarrow> byte list" where
  "paint_pixel fr buf row col =
     (let color = pixel_color fr row col;
          pos = ((row * OLED_WIDTH + col) * 2) mod 2 ^ 16
      in (buf[pos := ucast (drop_bit 8 color AND 0xFF)])[pos + 1 := ucast (color AND 0xFF)])"

text \<open>The loop \<open>for (int col = 0; col < OLED_WIDTH; col++)\<close>, from the value \<open>col\<close>.\<close>

function conv_cols :: "byte list \<Rightarrow> byte list \<Rightarrow> nat \<Rightarrow> nat \<Rightarrow> byte list" where
  "conv_cols fr buf row col =
     (if col < OLED_WIDTH then conv_cols fr (paint_pixel fr buf row col) row (col + 1)
      else buf)"
  by pat_completeness auto
termination
  by (relation "measure (\<lambda>(fr, buf, row, col). OLED_WIDTH - col)") auto

declare conv_cols.simps [simp del]

text \<open>The loop \<open>for (int row = 0; row < OLED_HEIGHT; row++)\<close>, from the value \<open>row\<close>.\<close>

function conv_rows :: "byte list \<Rightarrow> byte list \<Rightarrow> nat \<Rightarrow> byte list" where
  "conv_rows fr buf row =
     (if row < OLED_HEIGHT then conv_rows fr (conv_cols fr buf row 0) (row + 1)
      else buf)"
  by pat_completeness auto
termination
  by (relation "measure (\<lambda>(fr, buf, row). OLED_HEIGHT - row)") auto

declare conv_rows.simps [simp del]

section \<open>The driver's state (cam\_driver.c)\<close>

text \<open>
  Pointers are addresses (\<open>None\<close> is \<open>NULL\<close>); the heap maps the address of each live
  block to its bytes. \<open>malloc\<close> hands out the addresses \<open>brk\<close>, \<open>brk + 1\<close>, ... and never
  one that is in use; whether a call succeeds is the environment's choice, read from
  \<open>alloc_plan\<close> (an exhausted plan means success). The bytes of a fresh block are
  indeterminate in C; here they all hold \<open>junk\<close>.

  The threads, the named pipe and the display are the environment too: a thread created
  or joined is entered in \<open>thread_log\<close>, a buffer passed to \<open>OLED_1in5_rgb_Display\<close> in
  \<open>shown\<close>, and the frame bytes found behind the pointer passed to
  \<open>display_camera_frame\<close> in \<open>frame_log\<close> (oldest first). \<open>pipe_node\<close> is what is
  found at \<open>PIPE_PATH\<close> (its kind and permission bits), \<open>files\<close> the contents of the
  regular files, \<open>open_fds\<close> the number of open descriptors and streams.
  \<open>pipe_created\<close> is the static of cam\_driver.c and \<open>capture_pipe_created\<close> the
  static \<open>pipe_created\<close> of capture.c.
\<close>

datatype worker = FileWorker string | PipeWorker

datatype thread_event = Created worker | Joined "worker option"

datatype node_kind = Fifo | Regular | Directory

record driver =
  display_active :: int
  pipe_created :: int
  oled_buffers :: "nat option \<times> nat option"
  current_buffer :: int
  buffer_size :: nat
  heap :: "nat \<Rightarrow> byte list option"
  brk :: nat
  alloc_plan :: "bool list"
  junk :: byte
  shown :: "byte list list"
  frame_log :: "byte list option list"
  display_thread :: "worker option"
  thread_log :: "thread_event list"
  thread_create_ok :: bool
  pipe_node :: "(node_kind \<times> nat) option"
  umask :: nat
  mkfifo_ok :: bool
  files :: "string \<Rightarrow> byte list option"
  open_fds :: nat
  capture_pipe_created :: int

text \<open>\<open>malloc (n)\<close>: the pointer returned and the new state.\<close>

definition malloc :: "nat \<Rightarrow> driver \<Rightarrow> nat option \<times> driver" where
  "malloc n st =
     (case alloc_plan st of
        False # plan \<Rightarrow> (None, st\<lparr>alloc_plan := plan\<rparr>)
      | _ \<Rightarrow>
        (Some (brk st),
         st\<lparr>heap := (heap st)(brk st \<mapsto> replicate n (junk st)),
            brk := brk st + 1,
            alloc_plan := tl (alloc_plan st)\<rparr>))"

text \<open>\<open>free\<close>; \<open>free (NULL)\<close> does nothing.\<close>

definition free :: "nat option \<Rightarrow> driver \<Rightarrow> driver" where
  "free p st = (case p of None \<Rightarrow> st | Some a \<Rightarrow> st\<lparr>heap := (heap st)(a := None)\<rparr>)"

text \<open>\<open>memset (p, 0, n)\<close> on a live block.\<close>

definition memset0 :: "nat \<Rightarrow> nat \<Rightarrow> driver \<Rightarrow> driver" where
  "memset0 a n st =
     (case heap st a of
        None \<Rightarrow> st
      | Some bs \<Rightarrow> st\<lparr>heap := (heap st)(a \<mapsto> replicate n 0 @ drop n bs)\<rparr>)"

text \<open>
  The initial value of the statics of cam\_driver.c; \<open>buffer_size\<close> is a \<open>UWORD\<close>
  initialised with \<open>(OLED_WIDTH * 2) * OLED_HEIGHT\<close>.
\<close>

definition initial_driver :: driver where
  "initial_driver =
     \<lparr>display_active = 0, pipe_created = 0, oled_buffers = (None, None), current_buffer = 0,
      buffer_size = ((OLED_WIDTH * 2) * OLED_HEIGHT) mod 2 ^ 16,
      heap = (\<lambda>a. None), brk = 0, alloc_plan = [], junk = 0, shown = [], frame_log = [],
      display_thread = None, thread_log = [], thread_create_ok = True,
      pipe_node = None, umask = 0, mkfifo_ok = True, files = (\<lambda>f. None), open_fds = 0,
      capture_pipe_created = 0\<rparr>"

text \<open>\<open>init_display_buffers\<close>: the value returned and the new state.\<close>

definition init_display_buffers :: "driver \<Rightarrow> int \<times> driver" where
  "init_display_buffers st0 =
     (let st = st0\<lparr>buffer_size := ((OLED_WIDTH * 2) * OLED_HEIGHT) mod 2 ^ 16\<rparr>;
          (r0, st1) =
            (if fst (oled_buffers st) = None
             then (case malloc (buffer_size st) st of
                     (None, s) \<Rightarrow> (- 1, s\<lparr>oled_buffers := (None, snd (oled_buffers s))\<rparr>)
                   | (Some a, s) \<Rightarrow>
                       (0, memset0 a (buffer_size s)
                             (s\<lparr>oled_buffers := (Some a, snd (oled_buffers s))\<rparr>)))
             else (0 :: int, st))
      in if r0 \<noteq> 0 then (- 1, st1)
         else if snd (oled_buffers st1) = None
         then (case malloc (buffer_size st1) st1 of
                 (None, s) \<Rightarrow>
                   (- 1, (free (fst (oled_buffers s)) s)\<lparr>oled_buffers := (None, None)\<rparr>)
               | (Some a, s) \<Rightarrow>
                   (0, memset0 a (buffer_size s)
                         (s\<lparr>oled_buffers := (fst (oled_buffers s), Some a)\<rparr>)))
         else (0, st1))"

text \<open>\<open>free_display_buffers\<close>.\<close>

definition free_display_buffers :: "driver \<Rightarrow> driver" where
  "free_display_buffers st =
     (let st1 = (if fst (oled_buffers st) \<noteq> None
                 then (free (fst (oled_buffers st)) st)\<lparr>oled_buffers := (None, snd (oled_buffers st))\<rparr>
                 else st)
      in if snd (oled_buffers st1) \<noteq> None
         then (free (snd (oled_buffers st1)) st1)\<lparr>oled_buffers := (fst (oled_buffers st1), None)\<rparr>
         else st1)"

text \<open>
  \<open>display_camera_frame (frame_buffer, frame_size)\<close>. Both assignments
  \<open>oled_buffers[i] = malloc (buffer_size)\<close> come first, then the test of the frame; the
  conversion writes into \<open>oled_buffers[current_buffer]\<close>, the buffer is shown, and
  \<open>current_buffer\<close> becomes \<open>1 - current_buffer\<close>. \<open>current_buffer\<close> is 0 or 1.
  The first step, entering the frame in \<open>frame_log\<close>, is the model's record of the
  call and not part of the source. A frame pointer into a block that is not live is
  undefined in C and does not come from the workers; the model leaves the state then.
\<close>

definition display_camera_frame :: "nat option \<Rightarrow> nat \<Rightarrow> driver \<Rightarrow> driver" where
  "display_camera_frame frame_buffer frame_size st0 =
     (let st = st0\<lparr>frame_log := frame_log st0 @
                   [case frame_buffer of None \<Rightarrow> None | Some a \<Rightarrow> heap st0 a]\<rparr>
      in case malloc (buffer_size st) st of (p0, sa) \<Rightarrow>
         let st1 = sa\<lparr>oled_buffers := (p0, snd (oled_buffers sa))\<rparr>
         in if p0 = None then st1
            else case malloc (buffer_size st1) st1 of (p1, sb) \<Rightarrow>
              let st2 = sb\<lparr>oled_buffers := (fst (oled_buffers sb), p1)\<rparr>
              in if p1 = None then st2
                 else if fst (oled_buffers st2) = None \<or> snd (oled_buffers st2) = None then st2
                 else
                   let current_buffer1 =
                         (if current_buffer st2 = 0 then fst (oled_buffers st2)
                          else snd (oled_buffers st2))
                   in if frame_buffer = None
                         \<or> frame_size < OLED_WIDTH * OLED_HEIGHT * 3 div 2 then st2
                      else
                        (case (frame_buffer, current_buffer1) of
                           (Some fa, Some ca) \<Rightarrow>
                             (case (heap st2 fa, heap st2 ca) of
                                (Some fr, Some buf) \<Rightarrow>
                                  let painted = conv_rows fr buf 0
                                  in st2\<lparr>heap := (heap st2)(ca \<mapsto> painted),
                                         shown := shown st2 @ [painted],
                                         current_buffer := 1 - current_buffer st2\<rparr>
                              | _ \<Rightarrow> st2)
                         | _ \<Rightarrow> st2))"

section \<open>Starting and stopping a display (cam\_driver.c, capture.c)\<close>

text \<open>The permission bits written \<open>0666\<close> (octal) in the source.\<close>

definition MODE_0666 :: nat where
  "MODE_0666 = 6 * 64 + 6 * 8 + 6"

text \<open>
  \<open>mkfifo (PIPE_PATH, mode)\<close>: fails when the path exists or the environment refuses;
  the node gets the permission bits of \<open>mode\<close> that the process's \<open>umask\<close> leaves.
\<close>

definition mkfifo :: "nat \<Rightarrow> driver \<Rightarrow> int \<times> driver" where
  "mkfifo mode st =
     (if pipe_node st = None \<and> mkfifo_ok st
      then (0, st\<lparr>pipe_node := Some (Fifo, mode - (mode AND umask st))\<rparr>)
      else (- 1, st))"

text \<open>\<open>pthread_create (&display_thread, NULL, f, arg)\<close> for the worker \<open>w\<close>.\<close>

definition pthread_create :: "worker \<Rightarrow> driver \<Rightarrow> int \<times> driver" where
  "pthread_create w st =
     (if thread_create_ok st
      then (0, st\<lparr>display_thread := Some w, thread_log := thread_log st @ [Created w]\<rparr>)
      else (- 1, st))"

text \<open>\<open>start_video_display\<close>: \<open>fopen\<close> succeeds when the file exists; it is closed again.\<close>

definition start_video_display :: "string \<Rightarrow> driver \<Rightarrow> int \<times> driver" where
  "start_video_display yuv_filename st =
     (if display_active st \<noteq> 0 then (- 1, st)
      else case files st yuv_filename of
             None \<Rightarrow> (- 1, st)
           | Some data \<Rightarrow>
               let st1 = st\<lparr>display_active := 1\<rparr>
               in case pthread_create (FileWorker yuv_filename) st1 of (rc, st2) \<Rightarrow>
                    if rc \<noteq> 0 then (- 1, st2\<lparr>display_active := 0\<rparr>) else (0, st2))"

text \<open>\<open>start_realtime_display\<close>: \<open>stat (PIPE_PATH, &st) != 0\<close> when nothing is at the path.\<close>

definition start_realtime_display :: "driver \<Rightarrow> int \<times> driver" where
  "start_realtime_display st =
     (if display_active st \<noteq> 0 then (- 1, st)
      else
        let (rc, st1) =
              (if pipe_node st = None
               then (case mkfifo MODE_0666 st of (rc, s) \<Rightarrow>
                       if rc \<noteq> 0 then (- 1 :: int, s) else (0, s\<lparr>pipe_created := 1\<rparr>))
               else (0, st))
        in if rc \<noteq> 0 then (- 1, st1)
           else
             let st2 = st1\<lparr>display_active := 1\<rparr>
             in case pthread_create PipeWorker st2 of (rc, st3) \<Rightarrow>
                  if rc \<noteq> 0 then (- 1, st3\<lparr>display_active := 0\<rparr>) else (0, st3))"

text \<open>\<open>stop_display\<close>: \<open>pthread_join (display_thread, NULL)\<close> is entered in the log.\<close>

definition stop_display :: "driver \<Rightarrow> driver" where
  "stop_display st =
     (if display_active st \<noteq> 0
      then st\<lparr>display_active := 0,
              thread_log := thread_log st @ [Joined (display_thread st)]\<rparr>
      else st)"

text \<open>
  The block \<open>if (realtime_display) { ... }\<close> of \<open>capture_video\<close> (capture.c) up to the call
  of \<open>start_realtime_display\<close>: the value is \<open>- 1\<close> where \<open>capture_video\<close> returns \<open>- 1\<close>
  and 0 where it goes on to start the camera process.
\<close>

definition capture_video_pipe_setup :: "driver \<Rightarrow> int \<times> driver" where
  "capture_video_pipe_setup st =
     (let (rc, st1) =
            (case pipe_node st of
               None \<Rightarrow>
                 (case mkfifo MODE_0666 st of (rc, s) \<Rightarrow>
                    if rc \<noteq> 0 then (- 1 :: int, s) else (0, s\<lparr>capture_pipe_created := 1\<rparr>))
             | Some (kind, mode) \<Rightarrow> if kind \<noteq> Fifo then (- 1, st) else (0, st))
      in if rc \<noteq> 0 then (- 1, st1)
         else
           let st2 = (case pipe_node st1 of
                        None \<Rightarrow> st1
                      | Some (kind, mode) \<Rightarrow> st1\<lparr>pipe_node := Some (kind, MODE_0666)\<rparr>)
           in case start_realtime_display st2 of (rc, st3) \<Rightarrow>
                if rc \<noteq> 0 then (- 1, st3) else (0, st3))"

section \<open>The worker threads (cam\_driver.c)\<close>

text \<open>\<open>frame_size = OLED_WIDTH * OLED_HEIGHT * 3 / 2\<close>, as both workers compute it.\<close>

definition frame_size :: nat where
  "frame_size = OLED_WIDTH * OLED_HEIGHT * 3 div 2"

text \<open>
  A worker tests the volatile \<open>display_active\<close>, which \<open>stop_display\<close> clears from the
  controlling thread. \<open>env\<close> is that thread's part: its \<open>k\<close>-th entry tells whether the
  flag has been cleared from outside just before the worker's \<open>k\<close>-th test; after the
  end of \<open>env\<close> nobody interferes.
\<close>

definition check_active :: "bool list \<Rightarrow> driver \<Rightarrow> bool \<times> bool list \<times> driver" where
  "check_active env st =
     (case env of
        [] \<Rightarrow> (display_active st \<noteq> 0, [], st)
      | stop # env' \<Rightarrow>
          let st' = (if stop then st\<lparr>display_active := 0\<rparr> else st)
          in (display_active st' \<noteq> 0, env', st'))"

text \<open>
  What the writer puts into the pipe: chunks of bytes, or an error that the next \<open>read\<close>
  reports; at the end of the list the writer has closed the pipe. \<open>sys_read n\<close> is
  \<open>read (pipe_fd, ..., n)\<close>: the count returned, the bytes delivered, the rest of the pipe.
\<close>

datatype pipe_event = Bytes "byte list" | Error

fun sys_read :: "nat \<Rightarrow> pipe_event list \<Rightarrow> (int \<times> byte list) \<times> pipe_event list" where
  "sys_read n [] = ((0, []), [])"
| "sys_read n (Error # p) = ((- 1, []), p)"
| "sys_read n (Bytes bs # p) =
     (if length bs \<le> n then ((int (length bs), bs), p)
      else ((int n, take n bs), Bytes (drop n bs) # p))"

fun pipe_size :: "pipe_event list \<Rightarrow> nat" where
  "pipe_size [] = 0"
| "pipe_size (Error # p) = Suc (pipe_size p)"
| "pipe_size (Bytes bs # p) = Suc (length bs + pipe_size p)"

text \<open>Storing \<open>bs\<close> at offset \<open>off\<close> of the live block at address \<open>a\<close>.\<close>

definition store_bytes :: "nat \<Rightarrow> nat \<Rightarrow> byte list \<Rightarrow> driver \<Rightarrow> driver" where
  "store_bytes a off bs st =
     (case heap st a of
        None \<Rightarrow> st
      | Some blk \<Rightarrow>
          st\<lparr>heap := (heap st)(a \<mapsto> take off blk @ bs @ drop (off + length bs) blk)\<rparr>)"

lemma sys_read_progress:
  "sys_read n p = ((k, bs), p') \<Longrightarrow> 0 < k \<Longrightarrow> 0 < n \<Longrightarrow> pipe_size p' < pipe_size p"
  by (induction n p rule: sys_read.induct) (auto split: if_splits)

text \<open>
  The loop \<open>while (total_read < frame_size && display_active) { bytes_read = read (...);
  if (bytes_read <= 0) break; total_read += bytes_read; }\<close> filling the block at \<open>a\<close>:
  the final \<open>total_read\<close>, the rest of \<open>env\<close> and of the pipe, and the state.
\<close>

function read_frame ::
  "nat \<Rightarrow> nat \<Rightarrow> bool list \<Rightarrow> pipe_event list \<Rightarrow> driver
    \<Rightarrow> nat \<times> bool list \<times> pipe_event list \<times> driver" where
  "read_frame a total_read env pipe st =
     (if total_read < frame_size
      then (case check_active env st of (active, env1, st1) \<Rightarrow>
              if active
              then (case sys_read (frame_size - total_read) pipe of ((bytes_read, bs), pipe1) \<Rightarrow>
                      if bytes_read \<le> 0 then (total_read, env1, pipe1, st1)
                      else read_frame a (total_read + nat bytes_read) env1 pipe1
                             (store_bytes a total_read bs st1))
              else (total_read, env1, pipe, st1))
      else (total_read, env, pipe, st))"
  by pat_completeness auto
termination
proof (relation "measure (\<lambda>(a, total_read, env, pipe, st). pipe_size pipe)", goal_cases)
  case 1
  show ?case by simp
next
  case (2 a total_read env pipe st x y xa ya xb yb xc yc)
  have "sys_read (frame_size - total_read) pipe = ((xc, yc), yb)"
    using 2(5,6) by simp
  then have "pipe_size yb < pipe_size pipe"
    using 2(1,7) by (intro sys_read_progress [of "frame_size - total_read" pipe xc yc yb]) simp_all
  then show ?case by simp
qed

declare read_frame.simps [simp del]

lemma sys_read_size:
  "sys_read n p = ((k, bs), p') \<Longrightarrow> pipe_size p' \<le> pipe_size p"
  by (induction n p rule: sys_read.induct) (auto split: if_splits)

lemma read_frame_progress:
  "read_frame a t env pipe st = (t', env', pipe', st') \<Longrightarrow>
     t \<le> t' \<and> pipe_size pipe' \<le> pipe_size pipe \<and> (t < t' \<longrightarrow> pipe_size pipe' < pipe_size pipe)"
proof (induction a t env pipe st rule: read_frame.induct)
  case (1 a total_read env pipe st)
  show ?case
  proof (cases "total_read < frame_size")
    case False
    then show ?thesis
      using "1.prems" by (subst (asm) read_frame.simps) simp
  next
    case True
    obtain active env1 st1 where ca: "check_active env st = (active, env1, st1)"
      by (cases "check_active env st") auto
    show ?thesis
    proof (cases active)
      case False
      then show ?thesis
        using "1.prems" True ca by (subst (asm) read_frame.simps) simp
    next
      case act: True
      obtain bytes_read bs pipe1 where
        sr: "sys_read (frame_size - total_read) pipe = ((bytes_read, bs), pipe1)"
        by (cases "sys_read (frame_size - total_read) pipe") auto
      show ?thesis
      proof (cases "bytes_read \<le> 0")
        case True
        then have "t' = total_read" "pipe' = pipe1"
          using "1.prems" \<open>total_read < frame_size\<close> ca act sr
          by (subst (asm) read_frame.simps, simp)+
        then show ?thesis
          using sys_read_size [OF sr] by simp
      next
        case False
        then have rec: "read_frame a (total_read + nat bytes_read) env1 pipe1
                     (store_bytes a total_read bs st1) = (t', env', pipe', st')"
          using "1.prems" \<open>total_read < frame_size\<close> ca act sr
          by (subst (asm) read_frame.simps) simp
        have ih: "total_read + nat bytes_read \<le> t' \<and> pipe_size pipe' \<le> pipe_size pipe1"
          using "1.IH" [OF \<open>total_read < frame_size\<close> ca [symmetric] refl act sr [symmetric] refl False rec]
          by simp
        have "pipe_size pipe1 < pipe_size pipe"
          using sys_read_progress [OF sr] False \<open>total_read < frame_size\<close> by simp
        then show ?thesis using ih by simp
      qed
    qed
  qed
qed

lemma frame_size_pos: "0 < frame_size"
  by (simp add: frame_size_def OLED_WIDTH_def OLED_HEIGHT_def)

text \<open>
  The steady loop \<open>while (display_active)\<close> of \<open>pipe_thread_func\<close>: \<open>bufs\<close> are the two
  frame buffers and \<open>active_buffer\<close> is 0 or 1. It ends when the flag is seen cleared or
  by the \<open>break\<close> after an incomplete frame.
\<close>

function pipe_loop ::
  "nat \<times> nat \<Rightarrow> nat \<Rightarrow> bool list \<Rightarrow> pipe_event list \<Rightarrow> driver \<Rightarrow> driver" where
  "pipe_loop bufs active_buffer env pipe st =
     (case check_active env st of (active, env1, st1) \<Rightarrow>
        if active
        then
          (let frame_buffer = (if active_buffer = 0 then fst bufs else snd bufs);
               st2 = display_camera_frame (Some frame_buffer) frame_size st1;
               next_buffer = 1 - active_buffer;
               next_frame = (if next_buffer = 0 then fst bufs else snd bufs)
           in case read_frame next_frame 0 env1 pipe st2 of (total_read, env2, pipe2, st3) \<Rightarrow>
                if total_read < frame_size then st3
                else pipe_loop bufs next_buffer env2 pipe2 st3)
        else st1)"
  by pat_completeness auto
termination
proof (relation "measure (\<lambda>(bufs, active_buffer, env, pipe, st). pipe_size pipe)", goal_cases)
  case 1
  show ?case by simp
next
  case (2 bufs active_buffer env pipe st x y xa ya xb xc xd xe xf yf xg yg xh yh)
  have "read_frame xe 0 xa pipe xc = (xf, xg, xh, yh)"
    using 2 by simp
  moreover have "0 < xf"
    using 2 frame_size_pos by simp
  ultimately have "pipe_size xh < pipe_size pipe"
    using read_frame_progress [of xe 0 xa pipe xc xf xg xh yh] by simp
  then show ?case by simp
qed

declare pipe_loop.simps [simp del]

text \<open>\<open>close (fd)\<close> and \<open>fclose (file)\<close>.\<close>

definition close_fd :: "driver \<Rightarrow> driver" where
  "close_fd st = st\<lparr>open_fds := open_fds st - 1\<rparr>"

text \<open>
  \<open>pipe_thread_func\<close>: \<open>open_ok\<close> tells whether \<open>open (PIPE_PATH, O_RDONLY)\<close> succeeds. The
  result is the state when the thread function returns; the counter \<open>frames_received\<close>,
  which is only printed, is left out.
\<close>

definition pipe_thread_func :: "bool \<Rightarrow> bool list \<Rightarrow> pipe_event list \<Rightarrow> driver \<Rightarrow> driver" where
  "pipe_thread_func open_ok env pipe st =
     (if \<not> open_ok then st\<lparr>display_active := 0\<rparr>
      else
        let st0 = st\<lparr>open_fds := open_fds st + 1\<rparr>
        in case malloc frame_size st0 of
             (None, s1) \<Rightarrow> (close_fd s1)\<lparr>display_active := 0\<rparr>
           | (Some b0, s1) \<Rightarrow>
               (case malloc frame_size s1 of
                  (None, s2) \<Rightarrow> (close_fd (free (Some b0) s2))\<lparr>display_active := 0\<rparr>
                | (Some b1, s2) \<Rightarrow>
                    (case read_frame b0 0 env pipe s2 of (total_read, env1, pipe1, s3) \<Rightarrow>
                       if total_read < frame_size
                       then (close_fd (free (Some b1) (free (Some b0) s3)))\<lparr>display_active := 0\<rparr>
                       else
                         let s4 = pipe_loop (b0, b1) 0 env1 pipe1 s3
                         in close_fd (free (Some b1) (free (Some b0) s4)))))"

text \<open>
  Whether a worker has returned, or is still in its loop when the fuel (a bound on the
  number of passes through the loop) has run out.
\<close>

datatype run_status = Exited | Running

text \<open>
  The loop \<open>while (display_active)\<close> of \<open>display_thread_func\<close>: \<open>data\<close> are the bytes of the
  file and \<open>pos\<close> the position of the stream. \<open>fread\<close> delivers the bytes from \<open>pos\<close>, at
  most \<open>frame_size\<close> of them, into the frame buffer \<open>fb\<close>; after a short read the stream
  is rewound and the loop continues. The frame pacing (\<open>clock_gettime\<close>, \<open>nanosleep\<close>)
  is left out.
\<close>

fun file_loop ::
  "nat \<Rightarrow> bool list \<Rightarrow> nat \<Rightarrow> byte list \<Rightarrow> nat \<Rightarrow> driver \<Rightarrow> run_status \<times> nat \<times> driver" where
  "file_loop 0 env fb data pos st = (Running, pos, st)"
| "file_loop (Suc fuel) env fb data pos st =
     (case check_active env st of (active, env1, st1) \<Rightarrow>
        if active
        then
          (let chunk = take frame_size (drop pos data);
               bytes_read = length chunk;
               st2 = store_bytes fb 0 chunk st1
           in if bytes_read < frame_size then file_loop fuel env1 fb data 0 st2
              else file_loop fuel env1 fb data (pos + bytes_read)
                     (display_camera_frame (Some fb) frame_size st2))
        else (Exited, pos, st1))"

text \<open>\<open>display_thread_func\<close> for the file \<open>filename\<close>.\<close>

definition display_thread_func ::
  "nat \<Rightarrow> bool list \<Rightarrow> string \<Rightarrow> driver \<Rightarrow> run_status \<times> driver" where
  "display_thread_func fuel env filename st =
     (case files st filename of
        None \<Rightarrow> (Exited, st\<lparr>display_active := 0\<rparr>)
      | Some data \<Rightarrow>
          let st0 = st\<lparr>open_fds := open_fds st + 1\<rparr>
          in case malloc frame_size st0 of
               (None, s1) \<Rightarrow> (Exited, (close_fd s1)\<lparr>display_active := 0\<rparr>)
             | (Some fb, s1) \<Rightarrow>
                 (case file_loop fuel env fb data 0 s1 of
                    (Running, pos, s2) \<Rightarrow> (Running, s2)
                  | (Exited, pos, s2) \<Rightarrow> (Exited, close_fd (free (Some fb) s2))))"

section \<open>Button input (OLED\_1in5\_rgb\_test.c)\<close>

text \<open>
  The pin is the environment: \<open>pins k\<close> is what the \<open>k\<close>-th call of
  \<open>lgGpioRead (handle, pin)\<close> returns (a level 0 or 1, or a negative error code).
\<close>

type_synonym pin_readings = "nat \<Rightarrow> int"

text \<open>
  The variables of \<open>debounceButton\<close>, with the number \<open>rd\<close> of pin reads made so far
  and the microseconds \<open>us\<close> spent in \<open>usleep\<close>.
\<close>

record debounce_state =
  rd :: nat
  us :: nat
  lastState :: int
  count :: int

text \<open>One pass through the body of the \<open>for\<close> loop of \<open>debounceButton\<close>.\<close>

definition debounce_body :: "pin_readings \<Rightarrow> debounce_state \<Rightarrow> debounce_state" where
  "debounce_body pins s =
     (let s1 = s\<lparr>us := us s + 1000\<rparr>;
          v = pins (rd s1);
          s2 = s1\<lparr>rd := rd s1 + 1\<rparr>
      in if v = lastState s2 then s2\<lparr>count := count s2 + 1\<rparr>
         else s2\<lparr>rd := rd s2 + 1, count := 0, lastState := pins (rd s2)\<rparr>)"

text \<open>The loop \<open>for (int i = 0; i < 10; i++)\<close>, from the value \<open>i\<close> of its counter.\<close>

function debounce_for :: "pin_readings \<Rightarrow> nat \<Rightarrow> debounce_state \<Rightarrow> debounce_state" where
  "debounce_for pins i s =
     (if i < 10 then debounce_for pins (i + 1) (debounce_body pins s) else s)"
  by pat_completeness auto
termination
  by (relation "measure (\<lambda>(pins, i, s). 10 - i)") auto

declare debounce_for.simps [simp del]

text \<open>
  \<open>debounceButton\<close>: the value returned, with the final state of the loop (for the reads
  made and the time slept).
\<close>

definition debounceButton :: "pin_readings \<Rightarrow> int \<times> debounce_state" where
  "debounceButton pins =
     (let s0 = \<lparr>rd = 1, us = 0, lastState = pins 0, count = 0\<rparr>;
          s = debounce_for pins 0 s0
      in (if count s \<ge> 10 then lastState s else - 1, s))"




section \<open>Notions used in the statements and proofs\<close>

text \<open>
  The invariant of the loop of \<open>debounceButton\<close> after \<open>i\<close> passes: \<open>count\<close> equals
  \<open>i\<close> exactly when every sample so far agreed with the first read.
\<close>

definition debounce_inv :: "pin_readings \<Rightarrow> nat \<Rightarrow> debounce_state \<Rightarrow> bool" where
  "debounce_inv pins i s \<longleftrightarrow>
     us s = 1000 * i \<and> 0 \<le> count s \<and> count s \<le> int i
   \<and> (count s = int i \<longleftrightarrow> (\<forall>j. 1 \<le> j \<and> j \<le> i \<longrightarrow> pins j = pins 0))
   \<and> (count s = int i \<longrightarrow> lastState s = pins 0 \<and> rd s = i + 1)"

text \<open>
  The byte that the conversion pass is to leave at index \<open>i\<close> of the display buffer:
  pixel \<open>i div 2\<close>, row-major, high byte at the even index.
\<close>

definition expected_byte :: "byte list \<Rightarrow> nat \<Rightarrow> byte" where
  "expected_byte fr i =
     (let p = i div 2;
          color = pixel_color fr (p div OLED_WIDTH) (p mod OLED_WIDTH)
      in if even i then ucast (drop_bit 8 color AND 0xFF) else ucast (color AND 0xFF))"

text \<open>
  The bytes that successive reads can deliver: those written before the first error and
  before the first read that returns 0.
\<close>

fun stream_bytes :: "pipe_event list \<Rightarrow> byte list" where
  "stream_bytes [] = []"
| "stream_bytes (Error # p) = []"
| "stream_bytes (Bytes bs # p) = (if bs = [] then [] else bs @ stream_bytes p)"

text \<open>The complete frames of a byte stream, in order.\<close>

definition frames_of :: "byte list \<Rightarrow> byte list list" where
  "frames_of bs =
     map (\<lambda>k. take frame_size (drop (k * frame_size) bs)) [0..<length bs div frame_size]"

text \<open>
  What \<open>k\<close> passes through the loop of \<open>display_thread_func\<close> display, starting at
  frame number \<open>j\<close> of a file that holds the frames \<open>frames\<close> (and then fewer bytes than
  one frame): a pass at the end of the file displays nothing and starts again.
\<close>

fun played :: "nat \<Rightarrow> nat \<Rightarrow> 'a list \<Rightarrow> 'a list" where
  "played 0 j frames = []"
| "played (Suc k) j frames =
     (if j < length frames then frames ! j # played k (Suc j) frames
      else played k 0 frames)"


section \<open>Properties of the colour conversion\<close>

lemma clamp8_range: "0 \<le> clamp8 t \<and> clamp8 t \<le> 255"
  by (simp add: clamp8_def)

lemma uint_clamp8: "uint (word_of_int (clamp8 t) :: byte) = clamp8 t"
proof -
  have "0 \<le> clamp8 t" "clamp8 t < 2 ^ 8"
    using clamp8_range [of t] by simp_all
  then show ?thesis
    by (simp add: uint_word_of_int take_bit_int_eq_self)
qed

lemma uint_byte_range: "0 \<le> uint (x :: byte) \<and> uint x \<le> 255"
proof -
  have "uint x < 2 ^ 8"
    using uint_bounded [of x] by simp
  then show ?thesis by simp
qed

lemma sums_yuv_int32:
  "\<forall>s \<in> set (sums_yuv y u v). - (2 ^ 31) \<le> s \<and> s < 2 ^ 31"
proof -
  have "0 \<le> uint y" "uint y \<le> 255" "0 \<le> uint u" "uint u \<le> 255"
       "0 \<le> uint v" "uint v \<le> 255"
    using uint_byte_range [of y] uint_byte_range [of u] uint_byte_range [of v]
    by simp_all
  then show ?thesis
    unfolding sums_yuv_def Let_def by (simp, linarith)
qed

text \<open>
  Claim C1. For every input \<open>(y, u, v)\<close> of bytes, \<open>yuv420_to_rgb\<close> returns components
  \<open>r\<close>, \<open>g\<close>, \<open>b\<close> each in \<open>[0, 255]\<close>, given by the fixed-point transform
  \<open>c = y - 16\<close>, \<open>d = u - 128\<close>, \<open>e = v - 128\<close>,
  \<open>r = clamp8 ((298c + 409e + 128) >> 8)\<close>,
  \<open>g = clamp8 ((298c - 100d - 208e + 128) >> 8)\<close>,
  \<open>b = clamp8 ((298c + 516d + 128) >> 8)\<close>, where \<open>clamp8\<close> saturates to \<open>[0, 255]\<close>
  (the store into the byte loses nothing); the conversion of \<open>(235, 128, 128)\<close> is
  \<open>(255, 255, 255)\<close> and that of \<open>(16, 128, 128)\<close> is \<open>(0, 0, 0)\<close>.
\<close>

theorem yuv420_to_rgb_spec:
  "(case yuv420_to_rgb y u v of (r, g, b) \<Rightarrow>
      uint r = clamp8 ((298 * (uint y - 16) + 409 * (uint v - 128) + 128) div 256)
    \<and> uint g = clamp8 ((298 * (uint y - 16) - 100 * (uint u - 128)
                          - 208 * (uint v - 128) + 128) div 256)
    \<and> uint b = clamp8 ((298 * (uint y - 16) + 516 * (uint u - 128) + 128) div 256)
    \<and> 0 \<le> uint r \<and> uint r \<le> 255
    \<and> 0 \<le> uint g \<and> uint g \<le> 255
    \<and> 0 \<le> uint b \<and> uint b \<le> 255)
   \<and> (\<forall>t. clamp8 t = max 0 (min 255 t))
   \<and> yuv420_to_rgb 235 128 128 = (255, 255, 255)
   \<and> yuv420_to_rgb 16 128 128 = (0, 0, 0)"
proof -
  have vec: "yuv420_to_rgb 235 128 128 = (255, 255, 255)"
            "yuv420_to_rgb 16 128 128 = (0, 0, 0)"
    by (simp_all add: yuv420_to_rgb_def r_temp_def g_temp_def b_temp_def clamp8_def
          drop_bit_eq_div)
  have cl: "\<forall>t. clamp8 t = max 0 (min 255 t)"
    by (simp add: clamp8_def)
  have main: "(case yuv420_to_rgb y u v of (r, g, b) \<Rightarrow>
      uint r = clamp8 ((298 * (uint y - 16) + 409 * (uint v - 128) + 128) div 256)
    \<and> uint g = clamp8 ((298 * (uint y - 16) - 100 * (uint u - 128)
                          - 208 * (uint v - 128) + 128) div 256)
    \<and> uint b = clamp8 ((298 * (uint y - 16) + 516 * (uint u - 128) + 128) div 256)
    \<and> 0 \<le> uint r \<and> uint r \<le> 255
    \<and> 0 \<le> uint g \<and> uint g \<le> 255
    \<and> 0 \<le> uint b \<and> uint b \<le> 255)"
    using clamp8_range
    by (simp add: yuv420_to_rgb_def r_temp_def g_temp_def b_temp_def uint_clamp8
          drop_bit_eq_div Let_def)
  show ?thesis
    by (intro conjI main vec cl)
qed

section \<open>Properties of the button input\<close>

lemma debounce_body_inv:
  assumes "debounce_inv pins i s"
  shows "debounce_inv pins (Suc i) (debounce_body pins s)"
proof (cases "count s = int i")
  case True
  with assms have all: "\<forall>j. 1 \<le> j \<and> j \<le> i \<longrightarrow> pins j = pins 0"
    and ls: "lastState s = pins 0" and r: "rd s = i + 1" and u: "us s = 1000 * i"
    by (simp_all add: debounce_inv_def)
  show ?thesis
  proof (cases "pins (Suc i) = pins 0")
    case same: True
    have "\<forall>j. 1 \<le> j \<and> j \<le> Suc i \<longrightarrow> pins j = pins 0"
      using all same by (auto simp: le_Suc_eq)
    then show ?thesis
      using True ls r u same by (simp add: debounce_inv_def debounce_body_def Let_def)
  next
    case diff: False
    have "\<not> (\<forall>j. 1 \<le> j \<and> j \<le> Suc i \<longrightarrow> pins j = pins 0)"
      using diff by auto
    then show ?thesis
      using True ls r u diff by (simp add: debounce_inv_def debounce_body_def Let_def)
  qed
next
  case False
  with assms have lt: "count s < int i" and nn: "0 \<le> count s" and u: "us s = 1000 * i"
    and nall: "\<not> (\<forall>j. 1 \<le> j \<and> j \<le> i \<longrightarrow> pins j = pins 0)"
    by (simp_all add: debounce_inv_def)
  have nall': "\<not> (\<forall>j. 1 \<le> j \<and> j \<le> Suc i \<longrightarrow> pins j = pins 0)"
    using nall by auto
  show ?thesis
    using lt nn u nall' by (simp add: debounce_inv_def debounce_body_def Let_def)
qed

lemma debounce_for_inv:
  "debounce_inv pins i s \<Longrightarrow> i \<le> 10 \<Longrightarrow> debounce_inv pins 10 (debounce_for pins i s)"
proof (induction pins i s rule: debounce_for.induct)
  case (1 pins i s)
  show ?case
  proof (cases "i < 10")
    case True
    have "debounce_inv pins (i + 1) (debounce_body pins s)"
      using debounce_body_inv [OF "1.prems"(1)] by simp
    then have "debounce_inv pins 10 (debounce_for pins (i + 1) (debounce_body pins s))"
      using "1.IH" True by simp
    then show ?thesis
      using True by (subst debounce_for.simps) simp
  next
    case False
    then have "i = 10" using "1.prems"(2) by simp
    then show ?thesis
      using "1.prems"(1) by (subst debounce_for.simps) simp
  qed
qed

lemma debounce_inv_init:
  "debounce_inv pins 0 \<lparr>rd = 1, us = 0, lastState = pins 0, count = 0\<rparr>"
  by (simp add: debounce_inv_def)

text \<open>
  Claim C8. For every sequence of pin readings, \<open>debounceButton\<close> sleeps 1 ms (1000
  microseconds) before each of a fixed 10 samples (10 ms in all), and returns the level
  first read if and only if all 10 samples agree with it; otherwise it returns -1.
\<close>

theorem debounceButton_spec:
  "fst (debounceButton pins) =
     (if \<forall>j \<in> {1..10}. pins j = pins 0 then pins 0 else - 1)
   \<and> us (snd (debounceButton pins)) = 10 * 1000"
proof -
  define s where "s = debounce_for pins 0 \<lparr>rd = 1, us = 0, lastState = pins 0, count = 0\<rparr>"
  have inv: "debounce_inv pins 10 s"
    unfolding s_def using debounce_for_inv [OF debounce_inv_init] by simp
  have iff: "count s = 10 \<longleftrightarrow> (\<forall>j \<in> {1..10}. pins j = pins 0)"
    using inv by (simp add: debounce_inv_def Ball_def)
  have le: "count s \<le> 10" and ls: "count s = 10 \<longrightarrow> lastState s = pins 0"
    and u: "us s = 10000"
    using inv by (simp_all add: debounce_inv_def)
  have res: "debounceButton pins = (if count s \<ge> 10 then lastState s else - 1, s)"
    by (simp add: debounceButton_def Let_def s_def)
  have u2: "us (snd (debounceButton pins)) = 10 * 1000"
    using u res by simp
  show ?thesis
  proof (cases "\<forall>j \<in> {1..10}. pins j = pins 0")
    case True
    then have e: "(if \<forall>j \<in> {1..10}. pins j = pins 0 then pins 0 else - 1) = pins 0"
      by (rule if_P)
    have "count s = 10" using True iff by blast
    then have r: "fst (debounceButton pins) = pins 0"
      using ls res by simp
    show ?thesis
      by (simp only: e r u2 simp_thms)
  next
    case False
    then have e: "(if \<forall>j \<in> {1..10}. pins j = pins 0 then pins 0 else - 1) = - 1"
      by (rule if_not_P)
    have "count s \<noteq> 10" using False iff by blast
    then have "\<not> count s \<ge> 10" using le by linarith
    then have r: "fst (debounceButton pins) = - 1"
      using res by simp
    show ?thesis
      by (simp only: e r u2 simp_thms)
  qed
qed

theorem debounceButton_spec_witness:
  "fst (debounceButton (\<lambda>k. 1)) = 1
   \<and> fst (debounceButton (\<lambda>k. if k = 4 then 0 else 1)) = - 1
   \<and> us (snd (debounceButton (\<lambda>k. 1))) = 10000"
  using debounceButton_spec [of "\<lambda>k. 1"]
    debounceButton_spec [of "\<lambda>k. if k = 4 then 0 else 1"]
  by (simp add: Ball_def)










section \<open>Properties of the frame conversion\<close>

lemma pixel_index:
  assumes "col < OLED_WIDTH"
  shows "(row * OLED_WIDTH + col) div OLED_WIDTH = row"
    and "(row * OLED_WIDTH + col) mod OLED_WIDTH = col"
  using assms by (simp_all add: OLED_WIDTH_def)

lemma pixel_pos:
  assumes "row < OLED_HEIGHT" "col < OLED_WIDTH"
  shows "((row * OLED_WIDTH + col) * 2) mod 2 ^ 16 = (row * OLED_WIDTH + col) * 2"
    and "(row * OLED_WIDTH + col) * 2 + 1 < 2 * OLED_WIDTH * OLED_HEIGHT"
proof -
  have "row * 128 + col < 128 * 128"
    using assms by (simp add: OLED_WIDTH_def OLED_HEIGHT_def)
  then show "((row * OLED_WIDTH + col) * 2) mod 2 ^ 16 = (row * OLED_WIDTH + col) * 2"
    and "(row * OLED_WIDTH + col) * 2 + 1 < 2 * OLED_WIDTH * OLED_HEIGHT"
    by (simp_all add: OLED_WIDTH_def OLED_HEIGHT_def)
qed

lemma length_paint_pixel [simp]: "length (paint_pixel fr buf row col) = length buf"
  by (simp add: paint_pixel_def Let_def)

lemma paint_pixel_nth:
  assumes "row < OLED_HEIGHT" "col < OLED_WIDTH"
    and "length buf = 2 * OLED_WIDTH * OLED_HEIGHT" "i < length buf"
  shows "paint_pixel fr buf row col ! i =
           (if i div 2 = row * OLED_WIDTH + col then expected_byte fr i else buf ! i)"
proof -
  let ?p = "row * OLED_WIDTH + col"
  have pos: "(?p * 2) mod 2 ^ 16 = ?p * 2" and inr: "?p * 2 + 1 < length buf"
    using pixel_pos [OF assms(1,2)] assms(3) by simp_all
  have pp: "paint_pixel fr buf row col =
      (buf[?p * 2 := ucast (drop_bit 8 (pixel_color fr row col) AND 0xFF)])
          [?p * 2 + 1 := ucast (pixel_color fr row col AND 0xFF)]"
    unfolding paint_pixel_def Let_def pos ..
  have "i = (i div 2) * 2 \<or> i = (i div 2) * 2 + 1"
    by presburger
  then consider (hi) "i = ?p * 2" | (lo) "i = ?p * 2 + 1" | (other) "i div 2 \<noteq> ?p"
    by (cases "i div 2 = ?p") auto
  then show ?thesis
  proof cases
    case hi
    then have "i div 2 = ?p" "even i" by simp_all
    then show ?thesis
      using hi inr pixel_index [OF assms(2), of row]
      by (simp add: pp expected_byte_def Let_def)
  next
    case lo
    then have "i div 2 = ?p" "odd i" by simp_all
    then show ?thesis
      using lo inr pixel_index [OF assms(2), of row]
      by (simp add: pp expected_byte_def Let_def)
  next
    case other
    then have "i \<noteq> ?p * 2" "i \<noteq> ?p * 2 + 1" by auto
    then show ?thesis
      using other by (simp add: pp)
  qed
qed

lemma conv_cols_spec:
  "\<lbrakk>row < OLED_HEIGHT; col \<le> OLED_WIDTH; length buf = 2 * OLED_WIDTH * OLED_HEIGHT\<rbrakk> \<Longrightarrow>
     length (conv_cols fr buf row col) = length buf \<and>
     (\<forall>i < length buf. conv_cols fr buf row col ! i =
        (if row * OLED_WIDTH + col \<le> i div 2 \<and> i div 2 < row * OLED_WIDTH + OLED_WIDTH
         then expected_byte fr i else buf ! i))"
proof (induction fr buf row col rule: conv_cols.induct)
  case (1 fr buf row col)
  show ?case
  proof (cases "col < OLED_WIDTH")
    case True
    let ?b = "paint_pixel fr buf row col"
    have unf: "conv_cols fr buf row col = conv_cols fr ?b row (col + 1)"
      using True by (subst conv_cols.simps) simp
    have ih: "length (conv_cols fr ?b row (col + 1)) = length ?b \<and>
       (\<forall>i < length ?b. conv_cols fr ?b row (col + 1) ! i =
          (if row * OLED_WIDTH + (col + 1) \<le> i div 2 \<and> i div 2 < row * OLED_WIDTH + OLED_WIDTH
           then expected_byte fr i else ?b ! i))"
      using "1.IH" [OF True] True "1.prems" by simp
    have pp: "\<forall>i < length buf. ?b ! i =
        (if i div 2 = row * OLED_WIDTH + col then expected_byte fr i else buf ! i)"
      using paint_pixel_nth [OF "1.prems"(1) True "1.prems"(3)] by simp
    show ?thesis
    proof (intro conjI allI impI)
      show "length (conv_cols fr buf row col) = length buf"
        using ih unf by simp
    next
      fix i assume i: "i < length buf"
      have a: "conv_cols fr buf row col ! i =
          (if row * OLED_WIDTH + (col + 1) \<le> i div 2 \<and> i div 2 < row * OLED_WIDTH + OLED_WIDTH
           then expected_byte fr i else ?b ! i)"
        using ih i unf by simp
      have b: "?b ! i = (if i div 2 = row * OLED_WIDTH + col then expected_byte fr i else buf ! i)"
        using pp i by simp
      show "conv_cols fr buf row col ! i =
        (if row * OLED_WIDTH + col \<le> i div 2 \<and> i div 2 < row * OLED_WIDTH + OLED_WIDTH
         then expected_byte fr i else buf ! i)"
        unfolding a b using True by auto
    qed
  next
    case False
    then have "col = OLED_WIDTH" using "1.prems"(2) by simp
    moreover have "conv_cols fr buf row col = buf"
      using False by (subst conv_cols.simps) simp
    ultimately show ?thesis by auto
  qed
qed

lemma conv_rows_spec:
  "\<lbrakk>row \<le> OLED_HEIGHT; length buf = 2 * OLED_WIDTH * OLED_HEIGHT\<rbrakk> \<Longrightarrow>
     length (conv_rows fr buf row) = length buf \<and>
     (\<forall>i < length buf. conv_rows fr buf row ! i =
        (if row * OLED_WIDTH \<le> i div 2 then expected_byte fr i else buf ! i))"
proof (induction fr buf row rule: conv_rows.induct)
  case (1 fr buf row)
  show ?case
  proof (cases "row < OLED_HEIGHT")
    case True
    let ?b = "conv_cols fr buf row 0"
    have unf: "conv_rows fr buf row = conv_rows fr ?b (row + 1)"
      using True by (subst conv_rows.simps) simp
    have cc: "length ?b = length buf"
      "\<forall>i < length buf. ?b ! i =
        (if row * OLED_WIDTH \<le> i div 2 \<and> i div 2 < row * OLED_WIDTH + OLED_WIDTH
         then expected_byte fr i else buf ! i)"
      using conv_cols_spec [OF True _ "1.prems"(2), of 0 fr] by simp_all
    have ih: "length (conv_rows fr ?b (row + 1)) = length ?b \<and>
       (\<forall>i < length ?b. conv_rows fr ?b (row + 1) ! i =
          (if (row + 1) * OLED_WIDTH \<le> i div 2 then expected_byte fr i else ?b ! i))"
      using "1.IH" [OF True] True "1.prems" cc(1) by simp
    show ?thesis
    proof (intro conjI allI impI)
      show "length (conv_rows fr buf row) = length buf"
        using ih unf cc(1) by simp
    next
      fix i assume i: "i < length buf"
      have a: "conv_rows fr buf row ! i =
          (if row * OLED_WIDTH + OLED_WIDTH \<le> i div 2 then expected_byte fr i else ?b ! i)"
        using ih i unf cc(1) by (simp add: add.commute)
      have b: "?b ! i =
        (if row * OLED_WIDTH \<le> i div 2 \<and> i div 2 < row * OLED_WIDTH + OLED_WIDTH
         then expected_byte fr i else buf ! i)"
        using cc(2) i by simp
      show "conv_rows fr buf row ! i =
        (if row * OLED_WIDTH \<le> i div 2 then expected_byte fr i else buf ! i)"
        unfolding a b by auto
    qed
  next
    case False
    then have r: "row = OLED_HEIGHT" using "1.prems"(1) by simp
    have unf: "conv_rows fr buf row = buf"
      using False by (subst conv_rows.simps) simp
    have "\<forall>i < length buf. \<not> row * OLED_WIDTH \<le> i div 2"
      using r "1.prems"(2) by (auto simp: OLED_WIDTH_def OLED_HEIGHT_def)
    then show ?thesis using unf by simp
  qed
qed

lemma conv_rows_all:
  assumes "length buf = 2 * OLED_WIDTH * OLED_HEIGHT"
  shows "length (conv_rows fr buf 0) = length buf"
    and "i < length buf \<Longrightarrow> conv_rows fr buf 0 ! i = expected_byte fr i"
  using conv_rows_spec [OF _ assms, of 0 fr] by simp_all

lemma ucast_low_byte: "(ucast ((x :: 16 word) AND 0xFF) :: byte) = ucast x"
proof -
  have m: "(0xFF :: 16 word) = mask 8"
    by (simp add: mask_eq_exp_minus_1)
  show ?thesis
    unfolding m by (rule bit_word_eqI) (auto simp: bit_simps)
qed

lemma word_cat_bytes:
  "(word_cat (ucast (drop_bit 8 x) :: byte) (ucast x :: byte) :: 16 word) = x"
  by (rule bit_word_eqI) (auto simp: bit_simps)

lemma rgb565_vectors: "rgb565 255 255 255 = 0xFFFF" "rgb565 0 0 0 = 0"
  by (simp_all add: rgb565_def)

lemma malloc_success:
  assumes "set (take 1 (alloc_plan st)) \<subseteq> {True}"
  shows "malloc n st = (Some (brk st),
           st\<lparr>heap := (heap st)(brk st \<mapsto> replicate n (junk st)),
              brk := brk st + 1, alloc_plan := tl (alloc_plan st)\<rparr>)"
proof (cases "alloc_plan st")
  case Nil
  then show ?thesis by (simp add: malloc_def)
next
  case (Cons b plan)
  then have "b" using assms by simp
  then show ?thesis using Cons by (simp add: malloc_def)
qed

lemma display_camera_frame_success:
  assumes plan: "set (take 2 (alloc_plan st)) \<subseteq> {True}"
    and fr: "heap st fa = Some fr" and live: "fa < brk st"
    and size: "OLED_WIDTH * OLED_HEIGHT * 3 div 2 \<le> fsize"
    and cb: "current_buffer st = 0 \<or> current_buffer st = 1"
  shows "display_camera_frame (Some fa) fsize st =
     (let fresh = replicate (buffer_size st) (junk st);
          painted = conv_rows fr fresh 0;
          cur = (if current_buffer st = 0 then brk st else brk st + 1)
      in st\<lparr>frame_log := frame_log st @ [Some fr],
            oled_buffers := (Some (brk st), Some (brk st + 1)),
            heap := ((heap st)(brk st \<mapsto> fresh, brk st + 1 \<mapsto> fresh))(cur \<mapsto> painted),
            brk := brk st + 2,
            alloc_plan := tl (tl (alloc_plan st)),
            shown := shown st @ [painted],
            current_buffer := 1 - current_buffer st\<rparr>)"
proof -
  have p1: "set (take 1 (alloc_plan st)) \<subseteq> {True}"
    and p2: "set (take 1 (tl (alloc_plan st))) \<subseteq> {True}"
    using plan by (cases "alloc_plan st"; cases "tl (alloc_plan st)"; simp)+
  have ne: "fa \<noteq> brk st" "fa \<noteq> Suc (brk st)"
    using live by simp_all
  show ?thesis
    using fr size cb ne p1 p2
    by (auto simp: display_camera_frame_def Let_def malloc_success)
qed

lemma plane_indices:
  assumes "row < OLED_HEIGHT" "col < OLED_WIDTH"
  shows "row * OLED_WIDTH + col < OLED_WIDTH * OLED_HEIGHT"
    and "(row div 2) * (OLED_WIDTH div 2) + col div 2 < OLED_WIDTH * OLED_HEIGHT div 4"
    and "OLED_WIDTH * OLED_HEIGHT + OLED_WIDTH * OLED_HEIGHT div 4
           + ((row div 2) * (OLED_WIDTH div 2) + col div 2) < OLED_WIDTH * OLED_HEIGHT * 3 div 2"
proof -
  have r: "row < 128" and c: "col < 128"
    using assms by (simp_all add: OLED_WIDTH_def OLED_HEIGHT_def)
  have "row div 2 \<le> 63" "col div 2 \<le> 63"
    using r c by simp_all
  then have uv: "(row div 2) * 64 + col div 2 < 4096"
    by linarith
  show "row * OLED_WIDTH + col < OLED_WIDTH * OLED_HEIGHT"
    using r c by (simp add: OLED_WIDTH_def OLED_HEIGHT_def)
  show "(row div 2) * (OLED_WIDTH div 2) + col div 2 < OLED_WIDTH * OLED_HEIGHT div 4"
    using uv by (simp add: OLED_WIDTH_def OLED_HEIGHT_def)
  show "OLED_WIDTH * OLED_HEIGHT + OLED_WIDTH * OLED_HEIGHT div 4
           + ((row div 2) * (OLED_WIDTH div 2) + col div 2) < OLED_WIDTH * OLED_HEIGHT * 3 div 2"
    using uv by (simp add: OLED_WIDTH_def OLED_HEIGHT_def)
qed

lemma expected_byte_pixel:
  assumes "col < OLED_WIDTH"
  shows "expected_byte fr ((row * OLED_WIDTH + col) * 2) =
           ucast (drop_bit 8 (pixel_color fr row col))"
    and "expected_byte fr ((row * OLED_WIDTH + col) * 2 + 1) = ucast (pixel_color fr row col)"
  using pixel_index [OF assms, of row]
  by (simp_all add: expected_byte_def Let_def ucast_low_byte)

lemma mask_consts:
  "(0xF8 :: 16 word) = push_bit 3 (mask 5)" "(0xFC :: 16 word) = push_bit 2 (mask 6)"
  "(0xF8 :: byte) = push_bit 3 (mask 5)" "(0x1C :: byte) = push_bit 2 (mask 3)"
  by (simp_all add: mask_eq_exp_minus_1 push_bit_eq_mult)

lemma rgb565_hi:
  "(ucast (drop_bit 8 (rgb565 r g b)) :: byte) = (r AND 0xF8) OR drop_bit 5 g"
  unfolding rgb565_def mask_consts
  by (rule bit_word_eqI) (auto simp: bit_simps dest: bit_imp_le_length)

lemma rgb565_lo:
  "(ucast (rgb565 r g b) :: byte) = push_bit 3 (g AND 0x1C) OR drop_bit 3 b"
  unfolding rgb565_def mask_consts
  by (rule bit_word_eqI) (auto simp: bit_simps dest: bit_imp_le_length)

lemma rgb565_fields:
  "rgb565 r g b =
     word_cat (ucast (drop_bit 3 r) :: 5 word)
       (word_cat (ucast (drop_bit 2 g) :: 6 word) (ucast (drop_bit 3 b) :: 5 word) :: 11 word)"
proof -
  have aux: "Suc (Suc (n - 5)) = n - 3" if "\<not> n < 5" for n :: nat
    using that by simp
  show ?thesis
    unfolding rgb565_def mask_consts
    by (rule bit_word_eqI) (auto simp: bit_simps aux dest: bit_imp_le_length)
qed

lemma uint_word_cat:
  fixes x :: "'a::len word" and y :: "'b::len word"
  assumes "LENGTH('a) + LENGTH('b) \<le> LENGTH('c::len)"
  shows "uint (word_cat x y :: 'c word) = uint x * 2 ^ LENGTH('b) + uint y"
proof -
  have y: "take_bit LENGTH('b) (uint y) = uint y"
    by (simp add: take_bit_int_eq_self_iff uint_bounded)
  have bx: "uint x + 1 \<le> 2 ^ LENGTH('a)"
    using uint_bounded [of x] by linarith
  have by': "uint y < 2 ^ LENGTH('b)"
    by (rule uint_bounded)
  have "(uint x + 1) * 2 ^ LENGTH('b) \<le> 2 ^ LENGTH('a) * (2 ^ LENGTH('b) :: int)"
    using bx by (intro mult_right_mono) simp_all
  then have "uint x * 2 ^ LENGTH('b) + 2 ^ LENGTH('b) \<le> 2 ^ LENGTH('a) * (2 ^ LENGTH('b) :: int)"
    by (simp add: distrib_right)
  with by' have "uint x * 2 ^ LENGTH('b) + uint y < 2 ^ LENGTH('a) * 2 ^ LENGTH('b)"
    by linarith
  also have "\<dots> \<le> 2 ^ LENGTH('c)"
    using assms by (simp flip: power_add)
  finally have bound: "uint x * 2 ^ LENGTH('b) + uint y < 2 ^ LENGTH('c)" .
  have nonneg: "0 \<le> uint x * 2 ^ LENGTH('b) + uint y"
    by simp
  have "uint (word_cat x y :: 'c word) = take_bit LENGTH('c) (uint x * 2 ^ LENGTH('b) + uint y)"
    unfolding word_cat_eq' uint_word_of_int_eq concat_bit_eq y push_bit_eq_mult
    by (simp add: add.commute)
  also have "\<dots> = uint x * 2 ^ LENGTH('b) + uint y"
    using bound nonneg by (simp add: take_bit_int_eq_self)
  finally show ?thesis .
qed

lemma unat_field:
  fixes x :: byte
  assumes "8 \<le> n + LENGTH('a::len)"
  shows "unat (ucast (drop_bit n x) :: 'a word) = unat x div 2 ^ n"
proof -
  have "unat x < 2 ^ 8" using unsigned_less [of x, where 'a = nat] by simp
  also have "(2 :: nat) ^ 8 \<le> 2 ^ (n + LENGTH('a))"
    using assms by (intro power_increasing) simp_all
  finally have "unat x < 2 ^ LENGTH('a) * 2 ^ n" by (simp add: power_add mult.commute)
  then have lt: "unat x div 2 ^ n < 2 ^ LENGTH('a)"
    by (simp add: div_less_iff_less_mult)
  have "unat (ucast (drop_bit n x) :: 'a word) = take_bit LENGTH('a) (drop_bit n (unat x))"
    by (simp only: unsigned_ucast_eq unat_drop_bit_eq)
  also have "\<dots> = take_bit LENGTH('a) (unat x div 2 ^ n)"
    by (simp only: drop_bit_eq_div)
  also have "\<dots> = unat x div 2 ^ n"
    using lt by (simp only: take_bit_nat_eq_self)
  finally show ?thesis .
qed

lemma uint_field:
  fixes x :: byte
  assumes "8 \<le> n + LENGTH('a::len)"
  shows "uint (ucast (drop_bit n x) :: 'a word) = uint x div 2 ^ n"
proof -
  have "uint (ucast (drop_bit n x) :: 'a word) = int (unat (ucast (drop_bit n x) :: 'a word))"
    by simp
  also have "\<dots> = int (unat x div 2 ^ n)"
    by (simp only: unat_field [OF assms])
  also have "\<dots> = uint x div 2 ^ n"
    by (simp add: zdiv_int)
  finally show ?thesis .
qed

lemma uint_rgb565:
  "uint (rgb565 r g b) = (uint r div 8) * 2048 + (uint g div 4) * 32 + uint b div 8"
proof -
  have f: "uint (ucast (drop_bit 3 r) :: 5 word) = uint r div 8"
    "uint (ucast (drop_bit 2 g) :: 6 word) = uint g div 4"
    "uint (ucast (drop_bit 3 b) :: 5 word) = uint b div 8"
    using uint_field [of 3 r, where 'a = 5] uint_field [of 2 g, where 'a = 6]
      uint_field [of 3 b, where 'a = 5]
    by simp_all
  show ?thesis
    unfolding rgb565_fields
    by (simp add: uint_word_cat f)
qed

text \<open>
  Claim C2. When \<open>display_camera_frame\<close> is given a full frame (at least
  \<open>W * H * 3 / 2\<close> bytes) and its two allocations succeed, the buffer it hands to the
  display has \<open>W * H * 2\<close> bytes, and for every pixel \<open>(row, col)\<close> with \<open>row < H\<close>,
  \<open>col < W\<close>: the luma sample is byte \<open>row * W + col\<close> of the frame, both chroma samples
  are taken at index \<open>(row / 2) * (W / 2) + col / 2\<close> of their planes (which start at
  \<open>W * H\<close> and \<open>W * H + W * H / 4\<close>; all three indices lie inside the frame), and the
  pixel \<open>(r & 0xF8) << 8 | (g & 0xFC) << 3 | (b >> 3)\<close> of the converted colour
  \<open>(r, g, b)\<close> is stored high byte first at offset \<open>(row * W + col) * 2\<close>: the two bytes
  are \<open>(r & 0xF8) | (g >> 5)\<close> and \<open>((g & 0x1C) << 3) | (b >> 3)\<close>, and read as one
  big-endian number they are \<open>(r / 8) * 2048 + (g / 4) * 32 + b / 8\<close>, that is 5 bits of
  red, 6 of green and 5 of blue.
\<close>

theorem display_camera_frame_conversion:
  assumes "set (take 2 (alloc_plan st)) \<subseteq> {True}"
    and "heap st fa = Some fr" and "fa < brk st"
    and "OLED_WIDTH * OLED_HEIGHT * 3 div 2 \<le> fsize" and "fsize \<le> length fr"
    and "buffer_size st = OLED_WIDTH * 2 * OLED_HEIGHT"
    and "current_buffer st = 0 \<or> current_buffer st = 1"
    and "row < OLED_HEIGHT" and "col < OLED_WIDTH"
  shows "(let st' = display_camera_frame (Some fa) fsize st;
              painted = last (shown st');
              y_index = row * OLED_WIDTH + col;
              uv_index = (row div 2) * (OLED_WIDTH div 2) + col div 2;
              u_index = OLED_WIDTH * OLED_HEIGHT + uv_index;
              v_index = OLED_WIDTH * OLED_HEIGHT + OLED_WIDTH * OLED_HEIGHT div 4 + uv_index
          in shown st' = shown st @ [painted]
           \<and> length painted = OLED_WIDTH * OLED_HEIGHT * 2
           \<and> y_index < OLED_WIDTH * OLED_HEIGHT
           \<and> uv_index < OLED_WIDTH * OLED_HEIGHT div 4
           \<and> v_index < length fr
           \<and> (case yuv420_to_rgb (fr ! y_index) (fr ! u_index) (fr ! v_index) of
                (r, g, b) \<Rightarrow>
                  painted ! (y_index * 2) = ucast (drop_bit 8 (rgb565 r g b))
                \<and> painted ! (y_index * 2 + 1) = ucast (rgb565 r g b)
                \<and> word_cat (painted ! (y_index * 2)) (painted ! (y_index * 2 + 1))
                    = rgb565 r g b
                \<and> (word_cat (painted ! (y_index * 2)) (painted ! (y_index * 2 + 1)) :: 16 word)
                    = push_bit 8 (ucast r AND 0xF8) OR push_bit 3 (ucast g AND 0xFC)
                        OR drop_bit 3 (ucast b)
                \<and> painted ! (y_index * 2) = (r AND 0xF8) OR drop_bit 5 g
                \<and> painted ! (y_index * 2 + 1) = push_bit 3 (g AND 0x1C) OR drop_bit 3 b
                \<and> uint (painted ! (y_index * 2)) * 256 + uint (painted ! (y_index * 2 + 1))
                    = (uint r div 8) * 2048 + (uint g div 4) * 32 + uint b div 8))"
proof -
  define fresh where "fresh = replicate (buffer_size st) (junk st)"
  define painted where "painted = conv_rows fr fresh 0"
  have len: "length fresh = 2 * OLED_WIDTH * OLED_HEIGHT"
    using assms(6) by (simp add: fresh_def)
  have sh: "shown (display_camera_frame (Some fa) fsize st) = shown st @ [painted]"
    using display_camera_frame_success [OF assms(1,2,3,4,7)]
    by (simp add: Let_def painted_def fresh_def)
  then have la: "last (shown (display_camera_frame (Some fa) fsize st)) = painted"
    by simp
  have lp: "length painted = OLED_WIDTH * OLED_HEIGHT * 2"
    using conv_rows_all(1) [OF len] len by (simp add: painted_def)
  note idx = plane_indices [OF assms(8,9)]
  have pos: "(row * OLED_WIDTH + col) * 2 + 1 < length fresh"
    using pixel_pos(2) [OF assms(8,9)] len by simp
  have hi: "painted ! ((row * OLED_WIDTH + col) * 2) = ucast (drop_bit 8 (pixel_color fr row col))"
    using conv_rows_all(2) [OF len, of "(row * OLED_WIDTH + col) * 2" fr] pos
      expected_byte_pixel(1) [OF assms(9)]
    by (simp add: painted_def)
  have lo: "painted ! ((row * OLED_WIDTH + col) * 2 + 1) = ucast (pixel_color fr row col)"
    using conv_rows_all(2) [OF len, of "(row * OLED_WIDTH + col) * 2 + 1" fr] pos
      expected_byte_pixel(2) [OF assms(9)]
    by (simp add: painted_def)
  have vi: "OLED_WIDTH * OLED_HEIGHT + OLED_WIDTH * OLED_HEIGHT div 4
           + ((row div 2) * (OLED_WIDTH div 2) + col div 2) < length fr"
    using idx(3) assms(4,5) by linarith
  let ?yi = "row * OLED_WIDTH + col"
  let ?uv = "(row div 2) * (OLED_WIDTH div 2) + col div 2"
  obtain r g b where rgb:
    "yuv420_to_rgb (fr ! ?yi) (fr ! (OLED_WIDTH * OLED_HEIGHT + ?uv))
       (fr ! (OLED_WIDTH * OLED_HEIGHT + OLED_WIDTH * OLED_HEIGHT div 4 + ?uv)) = (r, g, b)"
    by (cases "yuv420_to_rgb (fr ! ?yi) (fr ! (OLED_WIDTH * OLED_HEIGHT + ?uv))
       (fr ! (OLED_WIDTH * OLED_HEIGHT + OLED_WIDTH * OLED_HEIGHT div 4 + ?uv))") auto
  have pc: "pixel_color fr row col = rgb565 r g b"
    using rgb by (simp add: pixel_color_def Let_def)
  have c1: "painted ! (?yi * 2) = ucast (drop_bit 8 (rgb565 r g b))"
    using hi pc by simp
  have c2: "painted ! (?yi * 2 + 1) = ucast (rgb565 r g b)"
    using lo pc by simp
  have c3: "word_cat (painted ! (?yi * 2)) (painted ! (?yi * 2 + 1)) = rgb565 r g b"
    unfolding c1 c2 by (rule word_cat_bytes)
  have c4: "(word_cat (painted ! (?yi * 2)) (painted ! (?yi * 2 + 1)) :: 16 word)
      = push_bit 8 (ucast r AND 0xF8) OR push_bit 3 (ucast g AND 0xFC) OR drop_bit 3 (ucast b)"
    unfolding c3 by (rule rgb565_def)
  have c5: "painted ! (?yi * 2) = (r AND 0xF8) OR drop_bit 5 g"
    unfolding c1 by (rule rgb565_hi)
  have c6: "painted ! (?yi * 2 + 1) = push_bit 3 (g AND 0x1C) OR drop_bit 3 b"
    unfolding c2 by (rule rgb565_lo)
  have "uint (word_cat (painted ! (?yi * 2)) (painted ! (?yi * 2 + 1)) :: 16 word)
      = uint (painted ! (?yi * 2)) * 2 ^ 8 + uint (painted ! (?yi * 2 + 1))"
    using uint_word_cat [of "painted ! (?yi * 2)" "painted ! (?yi * 2 + 1)", where 'c = 16]
    by simp
  then have c7: "uint (painted ! (?yi * 2)) * 256 + uint (painted ! (?yi * 2 + 1))
      = (uint r div 8) * 2048 + (uint g div 4) * 32 + uint b div 8"
    unfolding c3 uint_rgb565 by simp
  show ?thesis
    unfolding Let_def la rgb prod.case
    by (intro conjI sh lp idx(1) idx(2) vi c1 c2 c3 c4 c5 c6 c7)
qed

theorem display_camera_frame_conversion_witness:
  "(let fr = replicate 16384 60 @ replicate 4096 112 @ replicate 4096 172;
        st = initial_driver\<lparr>heap := (\<lambda>a. None)(0 \<mapsto> fr), brk := 1\<rparr>;
        st' = display_camera_frame (Some 0) 24576 st;
        painted = last (shown st')
    in heap st 0 = Some fr
     \<and> shown st' = [painted]
     \<and> length painted = 32768
     \<and> yuv420_to_rgb (fr ! 389) (fr ! 16450) (fr ! 20546) = (122, 22, 19)
     \<and> painted ! 778 = 0x78 \<and> painted ! 779 = 0xA2)"
proof -
  define fr :: "byte list" where
    "fr = replicate 16384 60 @ replicate 4096 112 @ replicate 4096 172"
  define st where "st = initial_driver\<lparr>heap := (\<lambda>a. None)(0 \<mapsto> fr), brk := 1\<rparr>"
  have h: "set (take 2 (alloc_plan st)) \<subseteq> {True}" "heap st 0 = Some fr"
    "0 < brk st" "OLED_WIDTH * OLED_HEIGHT * 3 div 2 \<le> 24576"
    "24576 \<le> length fr"
    "buffer_size st = OLED_WIDTH * 2 * OLED_HEIGHT"
    "current_buffer st = 0 \<or> current_buffer st = 1" "3 < OLED_HEIGHT" "5 < OLED_WIDTH"
    "shown st = []"
    by (simp_all add: st_def fr_def initial_driver_def OLED_WIDTH_def OLED_HEIGHT_def)
  have s: "fr ! 389 = 60" "fr ! 16450 = 112" "fr ! 20546 = 172"
    by (simp_all add: fr_def nth_append)
  have c: "yuv420_to_rgb 60 112 172 = (122, 22, 19)"
    by (simp add: yuv420_to_rgb_def r_temp_def g_temp_def b_temp_def clamp8_def
          drop_bit_eq_div)
  have hi: "((122 :: byte) AND 0xF8) OR drop_bit 5 22 = 0x78"
    and lo: "push_bit 3 ((22 :: byte) AND 0x1C) OR drop_bit 3 19 = 0xA2"
    by simp_all
  note inst = display_camera_frame_conversion [OF h(1-9)]
  have "shown (display_camera_frame (Some 0) 24576 st)
          = [last (shown (display_camera_frame (Some 0) 24576 st))]"
    "length (last (shown (display_camera_frame (Some 0) 24576 st))) = 32768"
    "last (shown (display_camera_frame (Some 0) 24576 st)) ! 778 = 0x78"
    "last (shown (display_camera_frame (Some 0) 24576 st)) ! 779 = 0xA2"
    using inst h(10) hi lo
    by (simp_all add: Let_def OLED_WIDTH_def OLED_HEIGHT_def s c rgb565_hi rgb565_lo)
  then show ?thesis
    unfolding Let_def fr_def [symmetric] st_def [symmetric]
    using h(2) s c by simp
qed

section \<open>The display buffers across frames\<close>

lemma init_display_buffers_initial:
  "init_display_buffers initial_driver =
     (0, initial_driver\<lparr>oled_buffers := (Some 0, Some 1), brk := 2,
           heap := (\<lambda>a. None)(0 \<mapsto> replicate 32768 0, 1 \<mapsto> replicate 32768 0)\<rparr>)"
  by (simp add: init_display_buffers_def initial_driver_def malloc_def memset0_def Let_def
        OLED_WIDTH_def OLED_HEIGHT_def)

text \<open>
  Claim C3 (the code does not do this). After \<open>init_display_buffers\<close> has allocated the
  two display buffers (addresses 0 and 1), a worker's frame buffer is allocated
  (address 2) and one frame is displayed: \<open>display_camera_frame\<close> assigns two fresh
  blocks (addresses 3 and 4) to \<open>oled_buffers\<close>. The buffers of \<open>init_display_buffers\<close>
  are still allocated, and stay so after \<open>free_display_buffers\<close>, which frees only the
  blocks that \<open>oled_buffers\<close> points to now.
\<close>

theorem display_camera_frame_reallocates:
  "(let (rc, s) = init_display_buffers initial_driver;
        (fp, s1) = malloc (OLED_WIDTH * OLED_HEIGHT * 3 div 2) s;
        s2 = display_camera_frame fp (OLED_WIDTH * OLED_HEIGHT * 3 div 2) s1;
        s3 = free_display_buffers s2
    in rc = 0 \<and> fp = Some 2
     \<and> oled_buffers s1 = (Some 0, Some 1)
     \<and> oled_buffers s2 = (Some 3, Some 4)
     \<and> length (shown s2) = 1
     \<and> heap s2 0 \<noteq> None \<and> heap s2 1 \<noteq> None
     \<and> oled_buffers s3 = (None, None)
     \<and> heap s3 0 \<noteq> None \<and> heap s3 1 \<noteq> None
     \<and> heap s3 3 = None \<and> heap s3 4 = None)"
  unfolding init_display_buffers_initial
  by (simp add: initial_driver_def malloc_def display_camera_frame_def free_display_buffers_def
        free_def Let_def OLED_WIDTH_def OLED_HEIGHT_def)

section \<open>Properties of starting and stopping\<close>

text \<open>
  Claim C7. While a display is active, \<open>start_video_display\<close> and
  \<open>start_realtime_display\<close> return \<open>- 1\<close> and leave the state as it is (no thread is
  created). \<open>stop_display\<close> on an inactive display leaves the state as it is; on an
  active one it clears the flag and joins the worker thread, and changes nothing else.
  So a second \<open>stop_display\<close> changes nothing, the display is inactive after any
  \<open>stop_display\<close>, and \<open>stop_display\<close> before any start changes nothing.
\<close>

theorem stop_start_misuse:
  "(display_active st \<noteq> 0 \<longrightarrow>
      start_video_display yuv_filename st = (- 1, st)
    \<and> start_realtime_display st = (- 1, st)
    \<and> stop_display st =
        st\<lparr>display_active := 0, thread_log := thread_log st @ [Joined (display_thread st)]\<rparr>)
   \<and> (display_active st = 0 \<longrightarrow> stop_display st = st)
   \<and> display_active (stop_display st) = 0
   \<and> stop_display (stop_display st) = stop_display st
   \<and> stop_display initial_driver = initial_driver"
proof -
  have active: "display_active st \<noteq> 0 \<longrightarrow>
      start_video_display yuv_filename st = (- 1, st)
    \<and> start_realtime_display st = (- 1, st)
    \<and> stop_display st =
        st\<lparr>display_active := 0, thread_log := thread_log st @ [Joined (display_thread st)]\<rparr>"
    by (simp add: start_video_display_def start_realtime_display_def stop_display_def)
  have inactive: "display_active st = 0 \<longrightarrow> stop_display st = st"
    by (simp add: stop_display_def)
  have off: "display_active (stop_display st) = 0"
    by (simp add: stop_display_def)
  have twice: "stop_display (stop_display st) = stop_display st"
    by (simp add: stop_display_def)
  have never: "stop_display initial_driver = initial_driver"
    by (simp add: stop_display_def initial_driver_def)
  show ?thesis
    by (intro conjI active inactive off twice never)
qed

theorem stop_start_misuse_witness:
  "(let st = initial_driver\<lparr>display_active := 1, display_thread := Some PipeWorker,
                               thread_log := [Created PipeWorker]\<rparr>
    in start_video_display ''clip.yuv'' st = (- 1, st)
     \<and> start_realtime_display st = (- 1, st)
     \<and> thread_log (stop_display st) = [Created PipeWorker, Joined (Some PipeWorker)]
     \<and> display_active (stop_display st) = 0
     \<and> stop_display (stop_display st) = stop_display st)
   \<and> stop_display initial_driver = initial_driver"
proof -
  define st where "st = initial_driver\<lparr>display_active := 1, display_thread := Some PipeWorker,
                               thread_log := [Created PipeWorker]\<rparr>"
  have a: "display_active st \<noteq> 0" "display_thread st = Some PipeWorker"
    "thread_log st = [Created PipeWorker]"
    by (simp_all add: st_def initial_driver_def)
  note t = stop_start_misuse [of st "''clip.yuv''"]
  note act = t [THEN conjunct1, THEN mp, OF a(1)]
  note off = t [THEN conjunct2, THEN conjunct2, THEN conjunct1]
  note twice = t [THEN conjunct2, THEN conjunct2, THEN conjunct2, THEN conjunct1]
  note never = t [THEN conjunct2, THEN conjunct2, THEN conjunct2, THEN conjunct2]
  have log: "thread_log (stop_display st) = [Created PipeWorker, Joined (Some PipeWorker)]"
    using act [THEN conjunct2, THEN conjunct2] a by simp
  show ?thesis
    unfolding st_def [symmetric] Let_def
    by (intro conjI act [THEN conjunct1] act [THEN conjunct2, THEN conjunct1] log off twice never)
qed

section \<open>Setting up the named pipe\<close>

lemma start_realtime_display_absent:
  assumes "display_active st = 0" "pipe_node st = None" "mkfifo_ok st" "thread_create_ok st"
  shows "start_realtime_display st =
           (0, st\<lparr>pipe_node := Some (Fifo, MODE_0666 - (MODE_0666 AND umask st)),
                  pipe_created := 1, display_active := 1, display_thread := Some PipeWorker,
                  thread_log := thread_log st @ [Created PipeWorker]\<rparr>)"
  using assms
  by (simp add: start_realtime_display_def mkfifo_def pthread_create_def)

lemma start_realtime_display_present:
  assumes "display_active st = 0" "pipe_node st = Some node" "thread_create_ok st"
  shows "start_realtime_display st =
           (0, st\<lparr>display_active := 1, display_thread := Some PipeWorker,
                  thread_log := thread_log st @ [Created PipeWorker]\<rparr>)"
  using assms
  by (simp add: start_realtime_display_def pthread_create_def)

lemma capture_video_pipe_setup_not_fifo:
  assumes "pipe_node st = Some (kind, mode)" "kind \<noteq> Fifo"
  shows "capture_video_pipe_setup st = (- 1, st)"
  using assms by (simp add: capture_video_pipe_setup_def)

lemma capture_video_pipe_setup_fifo:
  assumes "display_active st = 0" "pipe_node st = Some (Fifo, mode)" "thread_create_ok st"
  shows "capture_video_pipe_setup st =
           (0, st\<lparr>pipe_node := Some (Fifo, MODE_0666), display_active := 1,
                  display_thread := Some PipeWorker,
                  thread_log := thread_log st @ [Created PipeWorker]\<rparr>)"
  using assms
  by (simp add: capture_video_pipe_setup_def start_realtime_display_def pthread_create_def)

lemma capture_video_pipe_setup_absent:
  assumes "display_active st = 0" "pipe_node st = None" "mkfifo_ok st" "thread_create_ok st"
  shows "capture_video_pipe_setup st =
           (0, st\<lparr>pipe_node := Some (Fifo, MODE_0666), capture_pipe_created := 1,
                  display_active := 1, display_thread := Some PipeWorker,
                  thread_log := thread_log st @ [Created PipeWorker]\<rparr>)"
  using assms
  by (simp add: capture_video_pipe_setup_def start_realtime_display_def pthread_create_def
        mkfifo_def)

text \<open>
  Claim C9 (the code does not do this on every path). With a regular file at
  \<open>PIPE_PATH\<close> and no display active, \<open>capture_video\<close> refuses (\<open>- 1\<close>, nothing changed),
  but \<open>start_realtime_display\<close>, which has no test of the kind of the node and which the
  mode loop of OLED\_1in5\_rgb\_test.c calls directly, returns 0 and creates the pipe
  worker.
\<close>

theorem start_realtime_display_regular_file:
  "(let st = initial_driver\<lparr>pipe_node := Some (Regular, 420)\<rparr>
    in capture_video_pipe_setup st = (- 1, st)
     \<and> start_realtime_display st =
         (0, st\<lparr>display_active := 1, display_thread := Some PipeWorker,
                thread_log := [Created PipeWorker]\<rparr>))"
  by (simp add: capture_video_pipe_setup_def start_realtime_display_def pthread_create_def
        initial_driver_def)

section \<open>What the workers' steps leave unchanged\<close>

lemma malloc_cases:
  obtains (fail) plan where "alloc_plan st = False # plan"
      "malloc n st = (None, st\<lparr>alloc_plan := plan\<rparr>)"
  | (ok) "malloc n st = (Some (brk st),
           st\<lparr>heap := (heap st)(brk st \<mapsto> replicate n (junk st)),
              brk := brk st + 1, alloc_plan := tl (alloc_plan st)\<rparr>)"
proof (cases "alloc_plan st")
  case Nil
  then show ?thesis using ok by (simp add: malloc_def)
next
  case (Cons b plan)
  then show ?thesis using ok fail by (cases b) (simp_all add: malloc_def)
qed

lemma malloc_frame:
  assumes "malloc n st = (p, st')"
  shows "frame_log st' = frame_log st" "display_active st' = display_active st"
    "brk st \<le> brk st'" "x < brk st \<Longrightarrow> heap st' x = heap st x"
    "open_fds st' = open_fds st" "buffer_size st' = buffer_size st"
    "oled_buffers st' = oled_buffers st" "current_buffer st' = current_buffer st"
    "shown st' = shown st"
  using assms by (cases rule: malloc_cases [of st n]; auto)+

lemma display_camera_frame_frame:
  fixes st p n
  defines "st' \<equiv> display_camera_frame p n st"
  shows "frame_log st' = frame_log st @ [case p of None \<Rightarrow> None | Some a \<Rightarrow> heap st a]"
    and "display_active st' = display_active st"
    and "brk st \<le> brk st'"
    and "x < brk st \<Longrightarrow> heap st' x = heap st x"
    and "open_fds st' = open_fds st"
proof -
  let ?s0 = "st\<lparr>frame_log := frame_log st @ [case p of None \<Rightarrow> None | Some a \<Rightarrow> heap st a]\<rparr>"
  obtain p0 sa where m0: "malloc (buffer_size ?s0) ?s0 = (p0, sa)"
    by (cases "malloc (buffer_size ?s0) ?s0") auto
  note f0 = malloc_frame [OF m0]
  let ?s1 = "sa\<lparr>oled_buffers := (p0, snd (oled_buffers sa))\<rparr>"
  obtain p1 sb where m1: "malloc (buffer_size ?s1) ?s1 = (p1, sb)"
    by (cases "malloc (buffer_size ?s1) ?s1") auto
  note f1 = malloc_frame [OF m1]
  have p0_fresh: "p0 = Some a \<Longrightarrow> brk st \<le> a" for a
    using m0 by (cases rule: malloc_cases [of ?s0 "buffer_size ?s0"]) auto
  have p1_fresh: "p1 = Some a \<Longrightarrow> brk st \<le> a" for a
    using m1 f0(3) by (cases rule: malloc_cases [of ?s1 "buffer_size ?s1"]) auto
  have unf: "st' = (if p0 = None then ?s1
       else let st2 = sb\<lparr>oled_buffers := (fst (oled_buffers sb), p1)\<rparr>
            in if p1 = None then st2
               else if fst (oled_buffers st2) = None \<or> snd (oled_buffers st2) = None then st2
               else
                 let current_buffer1 =
                       (if current_buffer st2 = 0 then fst (oled_buffers st2)
                        else snd (oled_buffers st2))
                 in if p = None \<or> n < OLED_WIDTH * OLED_HEIGHT * 3 div 2 then st2
                    else
                      (case (p, current_buffer1) of
                         (Some fa, Some ca) \<Rightarrow>
                           (case (heap st2 fa, heap st2 ca) of
                              (Some fr, Some buf) \<Rightarrow>
                                let painted = conv_rows fr buf 0
                                in st2\<lparr>heap := (heap st2)(ca \<mapsto> painted),
                                       shown := shown st2 @ [painted],
                                       current_buffer := 1 - current_buffer st2\<rparr>
                            | _ \<Rightarrow> st2)
                       | _ \<Rightarrow> st2))"
    unfolding st'_def display_camera_frame_def Let_def using m0 m1
    by (simp add: Let_def)
  have ob: "oled_buffers (sb\<lparr>oled_buffers := (fst (oled_buffers sb), p1)\<rparr>) = (p0, p1)"
    using f1(7) by simp
  show "frame_log st' = frame_log st @ [case p of None \<Rightarrow> None | Some a \<Rightarrow> heap st a]"
    unfolding unf using f0(1) f1(1)
    by (auto simp: Let_def split: option.splits)
  show "display_active st' = display_active st"
    unfolding unf using f0(2) f1(2)
    by (auto simp: Let_def split: option.splits)
  show "brk st \<le> brk st'"
    unfolding unf using f0(3) f1(3)
    by (auto simp: Let_def split: option.splits)
  show "open_fds st' = open_fds st"
    unfolding unf using f0(5) f1(5)
    by (auto simp: Let_def split: option.splits)
  show "heap st' x = heap st x" if x: "x < brk st"
  proof -
    have a: "heap ?s1 x = heap st x" using f0(4) [of x] x by simp
    have b: "heap sb x = heap st x" using f1(4) [of x] f0(3) x a by simp
    have c: "p0 \<noteq> Some x" "p1 \<noteq> Some x"
      using p0_fresh [of x] p1_fresh [of x] x by auto
    show ?thesis
      unfolding unf using a b c ob
      by (auto simp: Let_def split: option.splits)
  qed
qed

section \<open>The frames shown by the pipe worker\<close>

lemma sys_read_stream:
  "sys_read n p = ((k, bs), p') \<Longrightarrow> 0 < k \<Longrightarrow> 0 < n \<Longrightarrow>
     k = int (length bs) \<and> length bs \<le> n \<and> stream_bytes p = bs @ stream_bytes p'"
proof (induction n p rule: sys_read.induct)
  case (3 n b rest)
  show ?case
  proof (cases "length b \<le> n")
    case True
    then show ?thesis using 3 by auto
  next
    case False
    then have "bs = take n b" "p' = Bytes (drop n b) # rest" "k = int n"
      using 3 by simp_all
    moreover have "drop n b \<noteq> []" "b \<noteq> []" using False by auto
    ultimately show ?thesis by simp
  qed
qed simp_all

lemma check_active_frame:
  assumes "check_active env st = (act, env', st')"
  shows "frame_log st' = frame_log st" "heap st' = heap st" "brk st' = brk st"
    "open_fds st' = open_fds st" "act \<longleftrightarrow> display_active st' \<noteq> 0"
    "display_active st' = display_active st \<or> display_active st' = 0"
    "env = [] \<Longrightarrow> st' = st"
  using assms by (auto simp: check_active_def Let_def split: list.splits if_splits)

lemma store_bytes_frame:
  "frame_log (store_bytes a off bs st) = frame_log st"
  "brk (store_bytes a off bs st) = brk st"
  "open_fds (store_bytes a off bs st) = open_fds st"
  "display_active (store_bytes a off bs st) = display_active st"
  "x \<noteq> a \<Longrightarrow> heap (store_bytes a off bs st) x = heap st x"
  "heap st a = Some blk \<Longrightarrow>
     heap (store_bytes a off bs st) a = Some (take off blk @ bs @ drop (off + length bs) blk)"
  by (auto simp: store_bytes_def split: option.splits)

lemma read_frame_spec:
  "\<lbrakk>read_frame a t env pipe st = (t', env', pipe', st'); heap st a = Some blk;
    length blk = frame_size; t \<le> frame_size\<rbrakk> \<Longrightarrow>
     \<exists>bs. t' = t + length bs \<and> t' \<le> frame_size
        \<and> heap st' a = Some (take t blk @ bs @ drop t' blk)
        \<and> (t' = frame_size \<longrightarrow> stream_bytes pipe = bs @ stream_bytes pipe')
        \<and> frame_log st' = frame_log st \<and> brk st' = brk st \<and> open_fds st' = open_fds st
        \<and> (\<forall>x. x \<noteq> a \<longrightarrow> heap st' x = heap st x)
        \<and> (display_active st' = display_active st \<or> display_active st' = 0)
        \<and> (t' < frame_size \<and> env = [] \<and> display_active st \<noteq> 0 \<longrightarrow>
              display_active st' = display_active st)"
proof (induction a t env pipe st arbitrary: blk rule: read_frame.induct)
  case (1 a total_read env pipe st)
  note heap_a = "1.prems"(2) and len = "1.prems"(3)
  show ?case
  proof (cases "total_read < frame_size")
    case False
    then have "t' = total_read" "st' = st" "pipe' = pipe" "total_read = frame_size"
      using "1.prems"(1,4) by (subst (asm) read_frame.simps, simp)+
    then show ?thesis
      using heap_a len by (intro exI [of _ "[]"]) simp
  next
    case True
    obtain active env1 st1 where ca: "check_active env st = (active, env1, st1)"
      by (cases "check_active env st") auto
    note cf = check_active_frame [OF ca]
    show ?thesis
    proof (cases active)
      case False
      then have "t' = total_read" "st' = st1"
        using "1.prems"(1) True ca by (subst (asm) read_frame.simps, simp)+
      then show ?thesis
        using heap_a len cf True False by (intro exI [of _ "[]"]) auto
    next
      case act: True
      obtain bytes_read bs1 pipe1 where
        sr: "sys_read (frame_size - total_read) pipe = ((bytes_read, bs1), pipe1)"
        by (cases "sys_read (frame_size - total_read) pipe") auto
      show ?thesis
      proof (cases "bytes_read \<le> 0")
        case True
        then have "t' = total_read" "st' = st1"
          using "1.prems"(1) \<open>total_read < frame_size\<close> ca act sr
          by (subst (asm) read_frame.simps, simp)+
        then show ?thesis
          using heap_a len cf \<open>total_read < frame_size\<close>
          by (intro exI [of _ "[]"]) auto
      next
        case False
        let ?st2 = "store_bytes a total_read bs1 st1"
        let ?t1 = "total_read + nat bytes_read"
        have rec: "read_frame a ?t1 env1 pipe1 ?st2 = (t', env', pipe', st')"
          using "1.prems"(1) \<open>total_read < frame_size\<close> ca act sr False
          by (subst (asm) read_frame.simps) simp
        have srs: "bytes_read = int (length bs1)" "length bs1 \<le> frame_size - total_read"
          "stream_bytes pipe = bs1 @ stream_bytes pipe1"
          using sys_read_stream [OF sr] False \<open>total_read < frame_size\<close> by simp_all
        then have t1: "?t1 = total_read + length bs1" "?t1 \<le> frame_size"
          using \<open>total_read < frame_size\<close> by simp_all
        let ?blk1 = "take total_read blk @ bs1 @ drop (total_read + length bs1) blk"
        have h1: "heap ?st2 a = Some ?blk1"
          using store_bytes_frame(6) [of st1 a blk total_read bs1] heap_a cf(2) by simp
        have l1: "length ?blk1 = frame_size"
          using len t1 by simp
        obtain bs2 where ih:
          "t' = ?t1 + length bs2" "t' \<le> frame_size"
          "heap st' a = Some (take ?t1 ?blk1 @ bs2 @ drop t' ?blk1)"
          "t' = frame_size \<longrightarrow> stream_bytes pipe1 = bs2 @ stream_bytes pipe'"
          "frame_log st' = frame_log ?st2" "brk st' = brk ?st2" "open_fds st' = open_fds ?st2"
          "\<forall>x. x \<noteq> a \<longrightarrow> heap st' x = heap ?st2 x"
          "display_active st' = display_active ?st2 \<or> display_active st' = 0"
          "t' < frame_size \<and> env1 = [] \<and> display_active ?st2 \<noteq> 0 \<longrightarrow>
              display_active st' = display_active ?st2"
          using "1.IH" [OF \<open>total_read < frame_size\<close> ca [symmetric] refl act sr [symmetric]
              refl False rec h1 l1 t1(2)]
          by blast
        have tk: "take ?t1 ?blk1 = take total_read blk @ bs1"
          using len t1 by simp
        have dr: "drop t' ?blk1 = drop t' blk"
          using len t1 ih(1) by (simp add: add.commute add.left_commute)
        have env1: "env = [] \<Longrightarrow> env1 = [] \<and> st1 = st"
          using ca by (simp add: check_active_def)
        show ?thesis
        proof (intro exI [of _ "bs1 @ bs2"] conjI)
          show "t' = total_read + length (bs1 @ bs2)" using ih(1) t1(1) by simp
          show "t' \<le> frame_size" by (rule ih(2))
          show "heap st' a = Some (take total_read blk @ (bs1 @ bs2) @ drop t' blk)"
            using ih(3) tk dr by simp
          show "t' = frame_size \<longrightarrow> stream_bytes pipe = (bs1 @ bs2) @ stream_bytes pipe'"
            using ih(4) srs(3) by simp
          show "frame_log st' = frame_log st"
            using ih(5) cf(1) by (simp add: store_bytes_frame)
          show "brk st' = brk st"
            using ih(6) cf(3) by (simp add: store_bytes_frame)
          show "open_fds st' = open_fds st"
            using ih(7) cf(4) by (simp add: store_bytes_frame)
          show "\<forall>x. x \<noteq> a \<longrightarrow> heap st' x = heap st x"
            using ih(8) cf(2) by (simp add: store_bytes_frame)
          show "display_active st' = display_active st \<or> display_active st' = 0"
            using ih(9) cf(6) by (auto simp: store_bytes_frame)
          show "t' < frame_size \<and> env = [] \<and> display_active st \<noteq> 0 \<longrightarrow>
              display_active st' = display_active st"
            using ih(10) env1 by (auto simp: store_bytes_frame)
        qed
      qed
    qed
  qed
qed

lemma frames_of_short: "length bs < frame_size \<Longrightarrow> frames_of bs = []"
  by (simp add: frames_of_def)

lemma frames_of_Cons:
  assumes "length f = frame_size"
  shows "frames_of (f @ rest) = f # frames_of rest"
proof -
  have d: "length (f @ rest) div frame_size = Suc (length rest div frame_size)"
    using assms frame_size_pos by (simp add: div_add_self1)
  have u: "[0..<Suc (length rest div frame_size)] = 0 # map Suc [0..<length rest div frame_size]"
    by (simp add: upt_conv_Cons map_Suc_upt del: upt_Suc)
  show ?thesis
    unfolding frames_of_def d u using assms by (simp add: comp_def)
qed

lemma length_frames_of: "f \<in> set (frames_of bs) \<Longrightarrow> length f = frame_size"
proof -
  assume "f \<in> set (frames_of bs)"
  then obtain k where k: "k < length bs div frame_size"
    and f: "f = take frame_size (drop (k * frame_size) bs)"
    by (auto simp: frames_of_def)
  have "Suc k * frame_size \<le> (length bs div frame_size) * frame_size"
    using k by (intro mult_le_mono1) simp
  also have "\<dots> \<le> length bs" by simp
  finally have "frame_size \<le> length bs - k * frame_size" by simp
  then show ?thesis using f by simp
qed

lemma pipe_loop_log:
  "\<lbrakk>pipe_loop (b0, b1) act env pipe st = st'; act = 0 \<or> act = 1; b0 \<noteq> b1;
    b0 < brk st; b1 < brk st;
    heap st (if act = 0 then b0 else b1) = Some fr; length fr = frame_size;
    heap st (if act = 0 then b1 else b0) = Some blk; length blk = frame_size\<rbrakk> \<Longrightarrow>
   \<exists>m. frame_log st' = frame_log st @ map Some (take m (fr # frames_of (stream_bytes pipe)))
     \<and> brk st \<le> brk st' \<and> open_fds st' = open_fds st
     \<and> heap st' b0 \<noteq> None \<and> heap st' b1 \<noteq> None"
proof (induction "pipe_size pipe" arbitrary: act env pipe st fr blk rule: less_induct)
  case less
  let ?cur = "if act = 0 then b0 else b1"
  let ?nxt = "if act = 0 then b1 else b0"
  obtain active env1 st1 where ca: "check_active env st = (active, env1, st1)"
    by (cases "check_active env st") auto
  note cf = check_active_frame [OF ca]
  show ?case
  proof (cases active)
    case False
    then have "st' = st1"
      using less.prems(1) ca by (subst (asm) pipe_loop.simps) simp
    then show ?thesis
      using cf less.prems by (intro exI [of _ 0]) auto
  next
    case True
    let ?st2 = "display_camera_frame (Some ?cur) frame_size st1"
    note df = display_camera_frame_frame [where st = st1 and p = "Some ?cur" and n = frame_size]
    have cur1: "heap st1 ?cur = Some fr" and nxt1: "heap st1 ?nxt = Some blk"
      using less.prems(6,8) cf(2) by simp_all
    have lt: "?cur < brk st1" "?nxt < brk st1"
      using less.prems(4,5) cf(3) by auto
    have log2: "frame_log ?st2 = frame_log st @ [Some fr]"
      using df(1) cur1 cf(1) by simp
    have cur2: "heap ?st2 ?cur = Some fr" and nxt2: "heap ?st2 ?nxt = Some blk"
      using df(4) [OF lt(1)] df(4) [OF lt(2)] cur1 nxt1 by simp_all
    have brk2: "brk st \<le> brk ?st2"
      using df(3) cf(3) by simp
    obtain total_read env2 pipe2 st3 where
      rf: "read_frame ?nxt 0 env1 pipe ?st2 = (total_read, env2, pipe2, st3)"
      by (cases "read_frame ?nxt 0 env1 pipe ?st2") auto
    have unf: "st' = (if total_read < frame_size then st3
                      else pipe_loop (b0, b1) (1 - act) env2 pipe2 st3)"
      using less.prems(1,2) ca True rf
      by (subst (asm) pipe_loop.simps) (auto simp: Let_def)
    obtain bs where rs:
      "total_read = length bs" "total_read \<le> frame_size"
      "heap st3 ?nxt = Some (bs @ drop total_read blk)"
      "total_read = frame_size \<longrightarrow> stream_bytes pipe = bs @ stream_bytes pipe2"
      "frame_log st3 = frame_log ?st2" "brk st3 = brk ?st2" "open_fds st3 = open_fds ?st2"
      "\<forall>x. x \<noteq> ?nxt \<longrightarrow> heap st3 x = heap ?st2 x"
      using read_frame_spec [OF rf nxt2 less.prems(9)] by auto
    have ne: "?cur \<noteq> ?nxt" using less.prems(3) by auto
    then have cur3: "heap st3 ?cur = Some fr"
      using rs(8) cur2 by simp
    have fds: "open_fds st3 = open_fds st"
      using rs(7) df(5) cf(4) by simp
    show ?thesis
    proof (cases "total_read < frame_size")
      case short: True
      then have "st' = st3" using unf by simp
      moreover have "heap st3 b0 \<noteq> None" "heap st3 b1 \<noteq> None"
        using cur3 rs(3) by (auto split: if_splits)
      ultimately show ?thesis
        using rs(5,6) log2 brk2 fds by (intro exI [of _ 1]) simp
    next
      case full: False
      then have tf: "total_read = frame_size" using rs(2) by simp
      then have st': "pipe_loop (b0, b1) (1 - act) env2 pipe2 st3 = st'"
        using unf by simp
      have nxt3: "heap st3 ?nxt = Some bs" and lbs: "length bs = frame_size"
        using rs(1,3) tf less.prems(9) by simp_all
      have str: "stream_bytes pipe = bs @ stream_bytes pipe2"
        using rs(4) tf by simp
      have smaller: "pipe_size pipe2 < pipe_size pipe"
        using read_frame_progress [OF rf] tf frame_size_pos by simp
      have act': "1 - act = 0 \<or> 1 - act = 1" by auto
      have sw: "(if 1 - act = 0 then b0 else b1) = ?nxt" "(if 1 - act = 0 then b1 else b0) = ?cur"
        using less.prems(2) by auto
      have b3: "b0 < brk st3" "b1 < brk st3"
        using less.prems(4,5) brk2 rs(6) by simp_all
      obtain m where ih:
        "frame_log st' = frame_log st3 @ map Some (take m (bs # frames_of (stream_bytes pipe2)))"
        "brk st3 \<le> brk st'" "open_fds st' = open_fds st3"
        "heap st' b0 \<noteq> None" "heap st' b1 \<noteq> None"
        using less.hyps [OF smaller st' act' less.prems(3) b3, of bs fr] nxt3 lbs cur3
          less.prems(7) sw
        by auto
      have fo: "frames_of (stream_bytes pipe) = bs # frames_of (stream_bytes pipe2)"
        unfolding str by (rule frames_of_Cons [OF lbs])
      have "frame_log st' =
          frame_log st @ map Some (take (Suc m) (fr # frames_of (stream_bytes pipe)))"
        using ih(1) rs(5) log2 fo by simp
      then show ?thesis
        using ih(2,3,4,5) rs(6) brk2 fds by (intro exI [of _ "Suc m"]) simp
    qed
  qed
qed

lemma free_frame:
  "frame_log (free p st) = frame_log st" "display_active (free p st) = display_active st"
  "open_fds (free p st) = open_fds st" "brk (free p st) = brk st"
  "heap (free (Some a) st) a = None" "x \<noteq> a \<Longrightarrow> heap (free (Some a) st) x = heap st x"
  by (simp_all add: free_def split: option.splits)

lemma close_fd_frame:
  "frame_log (close_fd st) = frame_log st" "display_active (close_fd st) = display_active st"
  "heap (close_fd st) = heap st" "open_fds (close_fd st) = open_fds st - 1"
  by (simp_all add: close_fd_def)

text \<open>
  The pipe worker, once both frame buffers are allocated (at \<open>b0\<close> and \<open>b1\<close>): the part
  of \<open>pipe_thread_func\<close> from the first read on.
\<close>

lemma pipe_worker_reads:
  assumes rf: "read_frame b0 0 env pipe s2 = (total_read, env1, pipe1, s3)"
    and h0: "heap s2 b0 = Some blk0" "length blk0 = frame_size"
    and h1: "heap s2 b1 = Some blk1" "length blk1 = frame_size"
    and ne: "b0 \<noteq> b1" and lt: "b0 < brk s2" "b1 < brk s2"
  shows "frame_log s3 = frame_log s2"
    and "\<not> total_read < frame_size \<longrightarrow>
           frame_size \<le> length (stream_bytes pipe) \<and>
           (\<exists>m. frame_log (pipe_loop (b0, b1) 0 env1 pipe1 s3) =
                 frame_log s2 @ map Some (take m (frames_of (stream_bytes pipe))))
           \<and> open_fds (pipe_loop (b0, b1) 0 env1 pipe1 s3) = open_fds s2"
proof -
  obtain bs where rs:
    "total_read = length bs" "total_read \<le> frame_size"
    "heap s3 b0 = Some (bs @ drop total_read blk0)"
    "total_read = frame_size \<longrightarrow> stream_bytes pipe = bs @ stream_bytes pipe1"
    "frame_log s3 = frame_log s2" "brk s3 = brk s2" "open_fds s3 = open_fds s2"
    "\<forall>x. x \<noteq> b0 \<longrightarrow> heap s3 x = heap s2 x"
    using read_frame_spec [OF rf h0] by auto
  show "frame_log s3 = frame_log s2"
    by (rule rs(5))
  show "\<not> total_read < frame_size \<longrightarrow>
           frame_size \<le> length (stream_bytes pipe) \<and>
           (\<exists>m. frame_log (pipe_loop (b0, b1) 0 env1 pipe1 s3) =
                 frame_log s2 @ map Some (take m (frames_of (stream_bytes pipe))))
           \<and> open_fds (pipe_loop (b0, b1) 0 env1 pipe1 s3) = open_fds s2"
  proof
    assume "\<not> total_read < frame_size"
    then have tf: "total_read = frame_size" using rs(2) by simp
    then have str: "stream_bytes pipe = bs @ stream_bytes pipe1"
      and lbs: "length bs = frame_size" and hb0: "heap s3 b0 = Some bs"
      using rs(1,3,4) h0(2) by simp_all
    have hb1: "heap s3 b1 = Some blk1"
      using rs(8) ne h1(1) by simp
    obtain m where m:
      "frame_log (pipe_loop (b0, b1) 0 env1 pipe1 s3) =
         frame_log s3 @ map Some (take m (bs # frames_of (stream_bytes pipe1)))"
      "open_fds (pipe_loop (b0, b1) 0 env1 pipe1 s3) = open_fds s3"
      using pipe_loop_log [OF refl, of 0 b0 b1 s3 bs blk1 env1 pipe1] ne lt rs(6) hb0 lbs hb1 h1(2)
      by auto
    have "frames_of (stream_bytes pipe) = bs # frames_of (stream_bytes pipe1)"
      unfolding str by (rule frames_of_Cons [OF lbs])
    then show "frame_size \<le> length (stream_bytes pipe) \<and>
           (\<exists>m. frame_log (pipe_loop (b0, b1) 0 env1 pipe1 s3) =
                 frame_log s2 @ map Some (take m (frames_of (stream_bytes pipe))))
           \<and> open_fds (pipe_loop (b0, b1) 0 env1 pipe1 s3) = open_fds s2"
      using m rs(5,7) str lbs by auto
  qed
qed

lemma pipe_thread_func_log:
  "(\<exists>m. frame_log (pipe_thread_func open_ok env pipe st) =
          frame_log st @ map Some (take m (frames_of (stream_bytes pipe))))
   \<and> (length (stream_bytes pipe) < frame_size \<longrightarrow>
        frame_log (pipe_thread_func open_ok env pipe st) = frame_log st
      \<and> display_active (pipe_thread_func open_ok env pipe st) = 0)"
proof -
  let ?st' = "pipe_thread_func open_ok env pipe st"
  let ?short = "length (stream_bytes pipe) < frame_size"
  let ?P = "\<lambda>s. (\<exists>m. frame_log s = frame_log st @ map Some (take m (frames_of (stream_bytes pipe))))
     \<and> (?short \<longrightarrow> frame_log s = frame_log st \<and> display_active s = 0)"
  have early: "?P (s\<lparr>display_active := 0\<rparr>)" if "frame_log s = frame_log st" for s
    using that by (auto intro: exI [of _ 0])
  show ?thesis
  proof (cases open_ok)
    case False
    then have "?st' = st\<lparr>display_active := 0\<rparr>"
      by (simp add: pipe_thread_func_def)
    then show ?thesis using early [of st] by simp
  next
    case True
    let ?st0 = "st\<lparr>open_fds := open_fds st + 1\<rparr>"
    show ?thesis
    proof (cases rule: malloc_cases [of ?st0 frame_size])
      case (fail plan)
      then have "?st' = (close_fd (?st0\<lparr>alloc_plan := plan\<rparr>))\<lparr>display_active := 0\<rparr>"
        using True by (simp add: pipe_thread_func_def)
      then show ?thesis
        using early [of "close_fd (?st0\<lparr>alloc_plan := plan\<rparr>)"] by (simp add: close_fd_frame)
    next
      case ok
      let ?b0 = "brk st"
      let ?s1 = "?st0\<lparr>heap := (heap ?st0)(brk ?st0 \<mapsto> replicate frame_size (junk ?st0)),
              brk := brk ?st0 + 1, alloc_plan := tl (alloc_plan ?st0)\<rparr>"
      have m1: "malloc frame_size ?st0 = (Some ?b0, ?s1)" using ok by simp
      show ?thesis
      proof (cases rule: malloc_cases [of ?s1 frame_size])
        case (fail plan)
        then have "?st' = (close_fd (free (Some ?b0) (?s1\<lparr>alloc_plan := plan\<rparr>)))\<lparr>display_active := 0\<rparr>"
          using True m1 by (simp add: pipe_thread_func_def)
        then show ?thesis
          using early [of "close_fd (free (Some ?b0) (?s1\<lparr>alloc_plan := plan\<rparr>))"]
          by (simp add: close_fd_frame free_frame)
      next
        case ok
        let ?b1 = "brk st + 1"
        let ?s2 = "?s1\<lparr>heap := (heap ?s1)(brk ?s1 \<mapsto> replicate frame_size (junk ?s1)),
              brk := brk ?s1 + 1, alloc_plan := tl (alloc_plan ?s1)\<rparr>"
        have m2: "malloc frame_size ?s1 = (Some ?b1, ?s2)" using ok by simp
        obtain total_read env1 pipe1 s3 where
          rf: "read_frame ?b0 0 env pipe ?s2 = (total_read, env1, pipe1, s3)"
          by (cases "read_frame ?b0 0 env pipe ?s2") auto
        have h: "heap ?s2 ?b0 = Some (replicate frame_size (junk st))"
          "heap ?s2 ?b1 = Some (replicate frame_size (junk st))"
          "?b0 \<noteq> ?b1" "?b0 < brk ?s2" "?b1 < brk ?s2" "frame_log ?s2 = frame_log st"
          by simp_all
        note pw = pipe_worker_reads [OF rf h(1) _ h(2) _ h(3,4,5)]
        show ?thesis
        proof (cases "total_read < frame_size")
          case short: True
          then have st': "?st' = (close_fd (free (Some ?b1) (free (Some ?b0) s3)))\<lparr>display_active := 0\<rparr>"
            using True m1 m2 rf by (simp add: pipe_thread_func_def Let_def)
          have "frame_log s3 = frame_log st"
            using pw(1) h(6) by simp
          then show ?thesis
            unfolding st'
            using early [of "close_fd (free (Some ?b1) (free (Some ?b0) s3))"]
            by (simp add: close_fd_frame free_frame)
        next
          case full: False
          let ?s4 = "pipe_loop (?b0, ?b1) 0 env1 pipe1 s3"
          have st': "?st' = close_fd (free (Some ?b1) (free (Some ?b0) ?s4))"
            using True m1 m2 rf full by (simp add: pipe_thread_func_def Let_def)
          have "frame_size \<le> length (stream_bytes pipe)"
            and "\<exists>m. frame_log ?s4 = frame_log ?s2 @ map Some (take m (frames_of (stream_bytes pipe)))"
            using pw(2) full by simp_all
          then show ?thesis
            unfolding st' using h(6) by (simp add: close_fd_frame free_frame)
        qed
      qed
    qed
  qed
qed

text \<open>
  Claim C4. Whatever the writer puts into the pipe and whenever the flag is cleared,
  the frames that \<open>pipe_thread_func\<close> passes to \<open>display_camera_frame\<close> are, in order,
  the first \<open>m\<close> complete frames of the bytes received (each of \<open>frame_size\<close> bytes), for
  some \<open>m\<close>: bytes that do not make up a complete frame are never passed on. When the
  writer closes or fails before the first frame is complete, nothing is passed to
  \<open>display_camera_frame\<close> and the worker returns with \<open>display_active\<close> cleared.
\<close>

theorem pipe_thread_func_full_frames:
  "(\<exists>m. frame_log (pipe_thread_func open_ok env pipe st) =
          frame_log st @ map Some (take m (frames_of (stream_bytes pipe))))
   \<and> (\<forall>f \<in> set (frames_of (stream_bytes pipe)). length f = frame_size)
   \<and> (length (stream_bytes pipe) < frame_size \<longrightarrow>
        frame_log (pipe_thread_func open_ok env pipe st) = frame_log st
      \<and> display_active (pipe_thread_func open_ok env pipe st) = 0)"
proof -
  have len: "\<forall>f \<in> set (frames_of (stream_bytes pipe)). length f = frame_size"
    using length_frames_of by blast
  show ?thesis
    using pipe_thread_func_log [of open_ok env pipe st] len by blast
qed

theorem pipe_thread_func_full_frames_witness:
  "length (stream_bytes [Bytes (replicate 12288 1)]) < frame_size
   \<and> frame_log (pipe_thread_func True [] [Bytes (replicate 12288 1)]
        (initial_driver\<lparr>display_active := 1\<rparr>)) = []
   \<and> display_active (pipe_thread_func True [] [Bytes (replicate 12288 1)]
        (initial_driver\<lparr>display_active := 1\<rparr>)) = 0"
proof -
  have short: "length (stream_bytes [Bytes (replicate 12288 1)]) < frame_size"
    by (simp add: frame_size_def OLED_WIDTH_def OLED_HEIGHT_def)
  note t = pipe_thread_func_full_frames [of True "[]" "[Bytes (replicate 12288 1)]"
      "initial_driver\<lparr>display_active := 1\<rparr>", THEN conjunct2, THEN conjunct2, THEN mp, OF short]
  have "frame_log (initial_driver\<lparr>display_active := 1\<rparr>) = []"
    by (simp add: initial_driver_def)
  then show ?thesis
    using short t by simp
qed

section \<open>How the workers end\<close>

lemma read_frame_one_chunk:
  assumes "display_active st \<noteq> 0" "length bs = frame_size"
  shows "read_frame a 0 [] (Bytes bs # p) st = (frame_size, [], p, store_bytes a 0 bs st)"
proof -
  have "read_frame a 0 [] (Bytes bs # p) st =
      read_frame a frame_size [] p (store_bytes a 0 bs st)"
    using assms frame_size_pos
    by (subst read_frame.simps) (simp add: check_active_def)
  also have "\<dots> = (frame_size, [], p, store_bytes a 0 bs st)"
    by (subst read_frame.simps) simp
  finally show ?thesis .
qed

lemma read_frame_closed:
  assumes "display_active st \<noteq> 0"
  shows "read_frame a 0 [] [] st = (0, [], [], st)"
  using assms frame_size_pos
  by (subst read_frame.simps) (simp add: check_active_def)

lemma pipe_loop_closed:
  assumes "display_active st \<noteq> 0"
  shows "pipe_loop (b0, b1) 0 [] [] st = display_camera_frame (Some b0) frame_size st"
proof -
  have "display_active (display_camera_frame (Some b0) frame_size st) \<noteq> 0"
    using assms by (simp add: display_camera_frame_frame)
  then show ?thesis
    using assms frame_size_pos
    by (subst pipe_loop.simps) (simp add: check_active_def read_frame_closed Let_def)
qed

text \<open>
  The writer delivers exactly one frame and closes the pipe; nobody clears the flag.
\<close>

lemma pipe_thread_func_one_frame:
  assumes act: "display_active st \<noteq> 0" and plan: "set (take 2 (alloc_plan st)) \<subseteq> {True}"
    and len: "length fr = frame_size"
  shows "display_active (pipe_thread_func True [] [Bytes fr] st) = display_active st"
    and "frame_log (pipe_thread_func True [] [Bytes fr] st) = frame_log st @ [Some fr]"
    and "heap (pipe_thread_func True [] [Bytes fr] st) (brk st) = None"
    and "heap (pipe_thread_func True [] [Bytes fr] st) (brk st + 1) = None"
    and "open_fds (pipe_thread_func True [] [Bytes fr] st) = open_fds st"
proof -
  let ?st0 = "st\<lparr>open_fds := open_fds st + 1\<rparr>"
  have p1: "set (take 1 (alloc_plan ?st0)) \<subseteq> {True}"
    and p2: "set (take 1 (tl (alloc_plan ?st0))) \<subseteq> {True}"
    using plan by (cases "alloc_plan st"; cases "tl (alloc_plan st)"; simp)+
  let ?s1 = "?st0\<lparr>heap := (heap ?st0)(brk ?st0 \<mapsto> replicate frame_size (junk ?st0)),
              brk := brk ?st0 + 1, alloc_plan := tl (alloc_plan ?st0)\<rparr>"
  have m1: "malloc frame_size ?st0 = (Some (brk st), ?s1)"
    using malloc_success [OF p1, of frame_size] by simp
  let ?s2 = "?s1\<lparr>heap := (heap ?s1)(brk ?s1 \<mapsto> replicate frame_size (junk ?s1)),
              brk := brk ?s1 + 1, alloc_plan := tl (alloc_plan ?s1)\<rparr>"
  have m2: "malloc frame_size ?s1 = (Some (brk st + 1), ?s2)"
    using malloc_success [of ?s1 frame_size] p2 by simp
  let ?s3 = "store_bytes (brk st) 0 fr ?s2"
  have rf: "read_frame (brk st) 0 [] [Bytes fr] ?s2 = (frame_size, [], [], ?s3)"
    using act len by (intro read_frame_one_chunk) simp_all
  have a3: "display_active ?s3 \<noteq> 0"
    using act by (simp add: store_bytes_frame)
  let ?s4 = "display_camera_frame (Some (brk st)) frame_size ?s3"
  have unf: "pipe_thread_func True [] [Bytes fr] st =
      close_fd (free (Some (brk st + 1)) (free (Some (brk st)) ?s4))"
    unfolding pipe_thread_func_def
    using m1 m2 rf pipe_loop_closed [OF a3] by (simp add: Let_def)
  have h3: "heap ?s3 (brk st) = Some fr"
    using store_bytes_frame(6) [of ?s2 "brk st" "replicate frame_size (junk st)" 0 fr] len
    by simp
  show "display_active (pipe_thread_func True [] [Bytes fr] st) = display_active st"
    unfolding unf
    by (simp add: close_fd_frame free_frame display_camera_frame_frame store_bytes_frame)
  have "frame_log ?s4 = frame_log ?s3 @ [Some fr]"
    using h3 by (simp only: display_camera_frame_frame(1) option.case)
  then show "frame_log (pipe_thread_func True [] [Bytes fr] st) = frame_log st @ [Some fr]"
    unfolding unf by (simp add: close_fd_frame free_frame store_bytes_frame)
  show "heap (pipe_thread_func True [] [Bytes fr] st) (brk st) = None"
    unfolding unf by (simp add: close_fd_frame free_frame)
  show "heap (pipe_thread_func True [] [Bytes fr] st) (brk st + 1) = None"
    unfolding unf by (simp add: close_fd_frame free_frame)
  show "open_fds (pipe_thread_func True [] [Bytes fr] st) = open_fds st"
    unfolding unf
    by (simp add: close_fd_frame free_frame display_camera_frame_frame store_bytes_frame)
qed

lemma pipe_thread_func_open_fails:
  "pipe_thread_func False env pipe st = st\<lparr>display_active := 0\<rparr>"
  by (simp add: pipe_thread_func_def)

lemma pipe_thread_func_alloc_fails:
  assumes "alloc_plan st = False # plan"
  shows "pipe_thread_func True env pipe st = st\<lparr>alloc_plan := plan, display_active := 0\<rparr>"
  using assms by (simp add: pipe_thread_func_def malloc_def close_fd_def)

lemma pipe_thread_func_second_alloc_fails:
  assumes "alloc_plan st = True # False # plan"
  shows "pipe_thread_func True env pipe st =
           st\<lparr>alloc_plan := plan, display_active := 0, brk := brk st + 1,
              heap := (heap st)(brk st := None)\<rparr>"
  using assms by (simp add: pipe_thread_func_def malloc_def close_fd_def free_def)

lemma display_thread_func_unreadable:
  assumes "files st filename = None"
  shows "display_thread_func fuel env filename st = (Exited, st\<lparr>display_active := 0\<rparr>)"
  using assms by (simp add: display_thread_func_def)

lemma display_thread_func_alloc_fails:
  assumes "files st filename = Some data" "alloc_plan st = False # plan"
  shows "display_thread_func fuel env filename st =
           (Exited, st\<lparr>alloc_plan := plan, display_active := 0\<rparr>)"
  using assms by (simp add: display_thread_func_def malloc_def close_fd_def)

text \<open>
  Claim C5 (the code does not do this). A display is active, the writer delivers one
  complete frame and closes the pipe, and nobody calls \<open>stop_display\<close>: the pipe worker
  shows the frame, leaves its loop by the \<open>break\<close> after the incomplete second frame,
  frees its two frame buffers, closes the pipe and returns, and \<open>display_active\<close> is
  still 1. When the first frame is incomplete, or the pipe cannot be opened, the
  worker clears the flag before it returns.
\<close>

theorem pipe_thread_func_midstream_close:
  "(let st = initial_driver\<lparr>display_active := 1\<rparr>;
        fr = replicate frame_size 1;
        st' = pipe_thread_func True [] [Bytes fr] st
    in display_active st' = 1 \<and> frame_log st' = [Some fr]
     \<and> heap st' 0 = None \<and> heap st' 1 = None \<and> open_fds st' = 0)
   \<and> display_active (pipe_thread_func True [] [Bytes (replicate 12288 1)]
        (initial_driver\<lparr>display_active := 1\<rparr>)) = 0
   \<and> display_active (pipe_thread_func False [] []
        (initial_driver\<lparr>display_active := 1\<rparr>)) = 0"
proof -
  define st where "st = initial_driver\<lparr>display_active := 1\<rparr>"
  have h: "display_active st \<noteq> 0" "set (take 2 (alloc_plan st)) \<subseteq> {True}"
    "length (replicate frame_size (1 :: byte)) = frame_size"
    by (simp_all add: st_def initial_driver_def)
  have i: "display_active st = 1" "frame_log st = []" "brk st = 0" "open_fds st = 0"
    by (simp_all add: st_def initial_driver_def)
  note one = pipe_thread_func_one_frame [OF h]
  have a: "(let fr = replicate frame_size 1;
        st' = pipe_thread_func True [] [Bytes fr] st
    in display_active st' = 1 \<and> frame_log st' = [Some fr]
     \<and> heap st' 0 = None \<and> heap st' 1 = None \<and> open_fds st' = 0)"
    unfolding Let_def using one i by simp
  have short: "length (stream_bytes [Bytes (replicate 12288 1)]) < frame_size"
    by (simp add: frame_size_def OLED_WIDTH_def OLED_HEIGHT_def)
  have b: "display_active (pipe_thread_func True [] [Bytes (replicate 12288 1)] st) = 0"
    using pipe_thread_func_log [of True "[]" "[Bytes (replicate 12288 1)]" st] short by blast
  have c: "display_active (pipe_thread_func False [] [] st) = 0"
    by (simp add: pipe_thread_func_open_fails)
  show ?thesis
    unfolding st_def [symmetric] using a b c by (simp add: Let_def)
qed

section \<open>Playback of a file in a loop\<close>

lemma played_within:
  "j + k \<le> length frames \<Longrightarrow> played k j frames = take k (drop j frames)"
proof (induction k arbitrary: j)
  case 0
  show ?case by simp
next
  case (Suc k)
  then have j: "j < length frames" by simp
  have "played (Suc k) j frames = frames ! j # take k (drop (Suc j) frames)"
    using Suc j by simp
  also have "\<dots> = take (Suc k) (drop j frames)"
    using j by (simp add: Cons_nth_drop_Suc [symmetric])
  finally show ?case .
qed

lemma played_round:
  "played (length frames + 1 + k) 0 frames = frames @ played k 0 frames"
proof -
  have gen: "j \<le> length frames \<Longrightarrow>
      played (length frames - j + 1 + k) j frames = drop j frames @ played k 0 frames" for j
  proof (induction "length frames - j" arbitrary: j)
    case 0
    then have "j = length frames" by simp
    then show ?case by simp
  next
    case (Suc d)
    then have j: "j < length frames" and d: "d = length frames - Suc j" by simp_all
    have e: "length frames - j + 1 + k = Suc (length frames - Suc j + 1 + k)"
      using j by simp
    have "played (length frames - j + 1 + k) j frames =
        frames ! j # played (length frames - Suc j + 1 + k) (Suc j) frames"
      unfolding e using j by simp
    also have "\<dots> = frames ! j # drop (Suc j) frames @ played k 0 frames"
      using Suc.hyps(1) [OF d] j by simp
    also have "\<dots> = drop j frames @ played k 0 frames"
      using j by (simp add: Cons_nth_drop_Suc)
    finally show ?case .
  qed
  show ?thesis using gen [of 0] by simp
qed

lemma played_rounds:
  "r \<le> length frames \<Longrightarrow>
     played (q * (length frames + 1) + r) 0 frames = concat (replicate q frames) @ take r frames"
proof (induction q)
  case 0
  then show ?case using played_within [of 0 r frames] by simp
next
  case (Suc q)
  have e: "Suc q * (length frames + 1) + r = length frames + 1 + (q * (length frames + 1) + r)"
    by simp
  show ?case
    unfolding e played_round using Suc.IH [OF Suc.prems] by (simp del: played.simps)
qed

lemma played_closed_form:
  "played k 0 frames =
     concat (replicate (k div (length frames + 1)) frames) @ take (k mod (length frames + 1)) frames"
proof -
  have "k mod (length frames + 1) \<le> length frames"
    using mod_less_divisor [of "length frames + 1" k] by simp
  from played_rounds [OF this, of "k div (length frames + 1)"] show ?thesis
    by (simp only: div_mult_mod_eq)
qed

lemma chunk_at:
  assumes "\<forall>f \<in> set frames. length f = frame_size"
  shows "j < length frames \<Longrightarrow>
           take frame_size (drop (j * frame_size) (concat frames @ tail)) = frames ! j"
    and "j = length frames \<Longrightarrow> drop (j * frame_size) (concat frames @ tail) = tail"
  using assms
proof (induction frames arbitrary: j)
  case Nil
  { case 1 then show ?case by simp }
  { case 2 then show ?case by simp }
next
  case (Cons f frames)
  { case 1
    show ?case
    proof (cases j)
      case 0
      then show ?thesis using 1 by simp
    next
      case (Suc j')
      then show ?thesis using 1 Cons.IH(1) [of j'] by simp
    qed }
  { case 2
    then show ?case using Cons.IH(2) [of "length frames"] by simp }
qed

lemma file_loop_plays:
  assumes full: "\<forall>f \<in> set frames. length f = frame_size"
    and tail: "length tail < frame_size"
  shows "\<lbrakk>display_active st \<noteq> 0; heap st fb = Some blk; length blk = frame_size;
          fb < brk st; j \<le> length frames\<rbrakk> \<Longrightarrow>
     \<exists>j' st'. file_loop k [] fb (concat frames @ tail) (j * frame_size) st
                 = (Running, j' * frame_size, st')
       \<and> frame_log st' = frame_log st @ map Some (played k j frames)
       \<and> display_active st' = display_active st \<and> open_fds st' = open_fds st"
proof (induction k arbitrary: j st blk)
  case 0
  then show ?case by simp
next
  case (Suc k)
  let ?data = "concat frames @ tail"
  have ca: "check_active [] st = (True, [], st)"
    using Suc.prems(1) by (simp add: check_active_def)
  show ?case
  proof (cases "j < length frames")
    case True
    then have ch: "take frame_size (drop (j * frame_size) ?data) = frames ! j"
      using chunk_at(1) [OF full] by simp
    have lch: "length (frames ! j) = frame_size"
      using full True by simp
    let ?st2 = "store_bytes fb 0 (frames ! j) st"
    let ?st3 = "display_camera_frame (Some fb) frame_size ?st2"
    have "file_loop (Suc k) [] fb ?data (j * frame_size) st =
        file_loop k [] fb ?data (j * frame_size + frame_size) ?st3"
      unfolding file_loop.simps ca Let_def ch using lch by simp
    then have unf: "file_loop (Suc k) [] fb ?data (j * frame_size) st =
        file_loop k [] fb ?data (Suc j * frame_size) ?st3"
      by (simp add: add.commute)
    have h2: "heap ?st2 fb = Some (frames ! j)"
      using store_bytes_frame(6) [OF Suc.prems(2), of 0 "frames ! j"] lch Suc.prems(3) by simp
    have b2: "fb < brk ?st2"
      using Suc.prems(4) by (simp add: store_bytes_frame)
    have p3: "display_active ?st3 \<noteq> 0" "heap ?st3 fb = Some (frames ! j)" "fb < brk ?st3"
      "frame_log ?st3 = frame_log st @ [Some (frames ! j)]" "open_fds ?st3 = open_fds st"
      "display_active ?st3 = display_active st"
      using Suc.prems(1) h2 b2
        display_camera_frame_frame(3) [where st = ?st2 and p = "Some fb" and n = frame_size]
        display_camera_frame_frame(4) [where st = ?st2 and p = "Some fb" and n = frame_size, OF b2]
      by (simp_all add: display_camera_frame_frame(1,2,5) store_bytes_frame)
    obtain j' st' where ih:
      "file_loop k [] fb ?data (Suc j * frame_size) ?st3 = (Running, j' * frame_size, st')"
      "frame_log st' = frame_log ?st3 @ map Some (played k (Suc j) frames)"
      "display_active st' = display_active ?st3" "open_fds st' = open_fds ?st3"
      using Suc.IH [OF p3(1,2) lch p3(3), of "Suc j"] True by auto
    show ?thesis
      unfolding unf using ih p3(4,5,6) True by (intro exI [of _ j'] exI [of _ st']) simp
  next
    case False
    then have j: "j = length frames" using Suc.prems(5) by simp
    then have ch: "take frame_size (drop (j * frame_size) ?data) = tail"
      using chunk_at(2) [OF full, of j tail] tail by simp
    let ?st2 = "store_bytes fb 0 tail st"
    have unf: "file_loop (Suc k) [] fb ?data (j * frame_size) st =
        file_loop k [] fb ?data (0 * frame_size) ?st2"
      unfolding file_loop.simps ca Let_def ch using tail by simp
    have h2: "heap ?st2 fb = Some (tail @ drop (length tail) blk)"
      using store_bytes_frame(6) [OF Suc.prems(2), of 0 tail] by simp
    have l2: "length (tail @ drop (length tail) blk) = frame_size"
      using tail Suc.prems(3) by simp
    have p2: "display_active ?st2 \<noteq> 0" "fb < brk ?st2"
      using Suc.prems(1,4) by (simp_all add: store_bytes_frame)
    obtain j' st' where ih:
      "file_loop k [] fb ?data (0 * frame_size) ?st2 = (Running, j' * frame_size, st')"
      "frame_log st' = frame_log ?st2 @ map Some (played k 0 frames)"
      "display_active st' = display_active ?st2" "open_fds st' = open_fds ?st2"
      using Suc.IH [OF p2(1) h2 l2 p2(2), of 0] by auto
    show ?thesis
      unfolding unf using ih j
      by (intro exI [of _ j'] exI [of _ st']) (simp add: store_bytes_frame)
  qed
qed

text \<open>
  Claim C6. The file holds \<open>N\<close> complete frames followed by fewer bytes than one frame
  (possibly none), the display is active and nobody stops it. Every pass through the
  loop of \<open>display_thread_func\<close> reads one chunk of at most \<open>frame_size\<close> bytes at the
  stream position; a complete chunk is displayed, after a short one the stream is
  rewound. So after \<open>k\<close> passes the worker is still running and has displayed the \<open>N\<close>
  frames of the file \<open>k div (N + 1)\<close> times over, followed by the first
  \<open>k mod (N + 1)\<close> frames; in particular (\<open>N > 0\<close>) after the \<open>N\<close> frames and the short
  read at the end of the file, the next frame displayed is the first frame of the file.
\<close>

theorem display_thread_func_loops:
  assumes "files st filename = Some (concat frames @ tail)"
    and "\<forall>f \<in> set frames. length f = frame_size" and "length tail < frame_size"
    and "display_active st \<noteq> 0" and "set (take 1 (alloc_plan st)) \<subseteq> {True}"
  shows "fst (display_thread_func k [] filename st) = Running
     \<and> frame_log (snd (display_thread_func k [] filename st)) =
         frame_log st @ map Some
           (concat (replicate (k div (length frames + 1)) frames)
            @ take (k mod (length frames + 1)) frames)
     \<and> (frames \<noteq> [] \<longrightarrow>
         frame_log (snd (display_thread_func (length frames + 2) [] filename st)) =
           frame_log st @ map Some (frames @ [hd frames]))"
proof -
  let ?st0 = "st\<lparr>open_fds := open_fds st + 1\<rparr>"
  let ?s1 = "?st0\<lparr>heap := (heap ?st0)(brk ?st0 \<mapsto> replicate frame_size (junk ?st0)),
              brk := brk ?st0 + 1, alloc_plan := tl (alloc_plan ?st0)\<rparr>"
  have m1: "malloc frame_size ?st0 = (Some (brk st), ?s1)"
    using malloc_success [of ?st0 frame_size] assms(5) by simp
  have run: "fst (display_thread_func n [] filename st) = Running
     \<and> frame_log (snd (display_thread_func n [] filename st)) =
         frame_log st @ map Some (played n 0 frames)" for n
  proof -
    obtain j' st' where fl:
      "file_loop n [] (brk st) (concat frames @ tail) (0 * frame_size) ?s1
         = (Running, j' * frame_size, st')"
      "frame_log st' = frame_log ?s1 @ map Some (played n 0 frames)"
      using file_loop_plays [OF assms(2,3), of ?s1 "brk st" "replicate frame_size (junk st)" 0 n]
        assms(4)
      by auto
    have "display_thread_func n [] filename st = (Running, st')"
      using assms(1) m1 fl(1) by (simp add: display_thread_func_def Let_def)
    then show ?thesis using fl(2) by simp
  qed
  have a: "fst (display_thread_func k [] filename st) = Running"
    and b: "frame_log (snd (display_thread_func k [] filename st)) =
         frame_log st @ map Some
           (concat (replicate (k div (length frames + 1)) frames)
            @ take (k mod (length frames + 1)) frames)"
    using run [of k] by (simp_all only: played_closed_form)
  have c: "frames \<noteq> [] \<longrightarrow>
         frame_log (snd (display_thread_func (length frames + 2) [] filename st)) =
           frame_log st @ map Some (frames @ [hd frames])"
  proof
    assume ne: "frames \<noteq> []"
    have "played (length frames + 1 + 1) 0 frames = frames @ played 1 0 frames"
      by (rule played_round)
    also have "played 1 0 frames = [hd frames]"
      using ne by (simp add: hd_conv_nth)
    finally have "played (length frames + 2) 0 frames = frames @ [hd frames]"
      by (simp del: played.simps)
    then show "frame_log (snd (display_thread_func (length frames + 2) [] filename st)) =
           frame_log st @ map Some (frames @ [hd frames])"
      using run [of "length frames + 2"] by (simp del: played.simps)
  qed
  show ?thesis
    by (intro conjI a b c)
qed

theorem display_thread_func_loops_witness:
  "(let frames = [replicate frame_size 1, replicate frame_size 2];
        st = initial_driver\<lparr>display_active := 1,
               files := (\<lambda>f. None)(''clip.yuv'' \<mapsto> concat frames @ [9])\<rparr>;
        r = display_thread_func 4 [] ''clip.yuv'' st
    in fst r = Running
     \<and> frame_log (snd r) = map Some (frames @ [replicate frame_size 1]))"
proof -
  define frames :: "byte list list" where
    "frames = [replicate frame_size 1, replicate frame_size 2]"
  define st where "st = initial_driver\<lparr>display_active := 1,
               files := (\<lambda>f. None)(''clip.yuv'' \<mapsto> concat frames @ [9])\<rparr>"
  have h: "files st ''clip.yuv'' = Some (concat frames @ [9])"
    "\<forall>f \<in> set frames. length f = frame_size"
    "display_active st \<noteq> 0" "set (take 1 (alloc_plan st)) \<subseteq> {True}"
    by (simp_all add: st_def frames_def initial_driver_def)
  have t: "length [9 :: byte] < frame_size"
    by (simp add: frame_size_def OLED_WIDTH_def OLED_HEIGHT_def)
  have l: "length frames = 2" "frame_log st = []" "hd frames = replicate frame_size 1"
    "frames \<noteq> []"
    by (simp_all add: frames_def st_def initial_driver_def)
  note inst = display_thread_func_loops [OF h(1,2) t h(3,4), of 4]
  have a: "fst (display_thread_func 4 [] ''clip.yuv'' st) = Running"
    using inst by simp
  have b: "frame_log (snd (display_thread_func 4 [] ''clip.yuv'' st)) =
      map Some (frames @ [replicate frame_size 1])"
    using inst [THEN conjunct2, THEN conjunct2] l by simp
  show ?thesis
    unfolding Let_def frames_def [symmetric] st_def [symmetric] using a b by simp
qed

lemma display_thread_func_stops:
  assumes "files st filename = Some data" "set (take 1 (alloc_plan st)) \<subseteq> {True}"
  shows "display_thread_func (Suc fuel) (True # env) filename st =
           (Exited, st\<lparr>display_active := 0, brk := brk st + 1,
                       alloc_plan := tl (alloc_plan st),
                       heap := (heap st)(brk st := None)\<rparr>)"
proof -
  let ?st0 = "st\<lparr>open_fds := open_fds st + 1\<rparr>"
  have m1: "malloc frame_size ?st0 = (Some (brk st),
           ?st0\<lparr>heap := (heap ?st0)(brk ?st0 \<mapsto> replicate frame_size (junk ?st0)),
              brk := brk ?st0 + 1, alloc_plan := tl (alloc_plan ?st0)\<rparr>)"
    using malloc_success [of ?st0 frame_size] assms(2) by simp
  show ?thesis
    using assms(1) m1
    by (simp add: display_thread_func_def Let_def check_active_def free_def close_fd_def)
qed

end
